theory Spec2Isabelle
  imports Complex_Main "HOL-Library.Sublist" "HOL-Library.Multiset"
begin

section \<open>Charging-station map: data model\<close>

text \<open>
  The development covers \<^verbatim>\<open>services/chargingStations.ts\<close> (\<^verbatim>\<open>convertToOCMFormat\<close>,
  \<^verbatim>\<open>mergeStationsWithOCM\<close>) and the controller logic of the page component
  \<^verbatim>\<open>ChargingStationsAlbaniaPage\<close> (\<^verbatim>\<open>loadStations\<close>, \<^verbatim>\<open>handleMapMove\<close>,
  \<^verbatim>\<open>handleSearchArea\<close>, \<^verbatim>\<open>handleRetry\<close>, \<^verbatim>\<open>visibleStations\<close> and the marker effect).

  A JavaScript number is either a finite value or one of NaN, +Infinity, -Infinity; only
  \<^verbatim>\<open>Number.isFinite\<close> distinguishes them here. Finite values are rationals (every finite
  double is one); rounding of arithmetic to doubles is not modelled, and no arithmetic on
  coordinates occurs except \<^verbatim>\<open>toFixed(6)\<close>.

  A \<open>string\<close> is a sequence of UTF-16 code units below 256, \<open>of_char\<close> giving the code
  of each.
\<close>

datatype number = Fin rat | NotFinite

fun isFinite :: "number \<Rightarrow> bool" where
  "isFinite (Fin _) = True"
| "isFinite NotFinite = False"

text \<open>\<^verbatim>\<open>ChargingStation\<close> of \<^verbatim>\<open>services/storage.ts\<close>; the four audit fields
  (\<^verbatim>\<open>createdAt\<close>, \<^verbatim>\<open>updatedAt\<close>, \<^verbatim>\<open>createdBy\<close>, \<^verbatim>\<open>updatedBy\<close>) are left out.
  \<open>None\<close> is \<^verbatim>\<open>null\<close>.\<close>

record chargingStation =
  cs_id :: string
  cs_address :: string
  cs_plugTypes :: string
  cs_chargingSpeedKw :: number
  cs_operator :: "string option"
  cs_pricingDetails :: "string option"
  cs_googleMapsLink :: "string option"
  cs_latitude :: "number option"
  cs_longitude :: "number option"

text \<open>The feature shape of the third-party directory, as far as the page reads it.
  \<open>None\<close> is a missing (\<^verbatim>\<open>undefined\<close>) property. The page reads some properties under
  two spellings, camelCase and PascalCase; both are fields: \<open>f_title\<close> is
  \<^verbatim>\<open>properties.title\<close> and \<open>f_Title\<close> is \<^verbatim>\<open>properties.Title\<close>, \<open>f_operatorInfo\<close> is
  \<^verbatim>\<open>properties.operatorInfo?.title\<close> and \<open>f_OperatorInfo\<close> is
  \<^verbatim>\<open>properties.OperatorInfo?.Title\<close>, and so on.\<close>

record addressInfo =
  ai_title :: "string option"
  ai_Title :: "string option"
  ai_addressLine1 :: "string option"
  ai_AddressLine1 :: "string option"
  ai_town :: "string option"
  ai_Town :: "string option"
  ai_stateOrProvince :: "string option"
  ai_StateOrProvince :: "string option"
  ai_postcode :: "string option"
  ai_Postcode :: "string option"
  ai_latitude :: "number option"
  ai_Latitude :: "number option"
  ai_longitude :: "number option"
  ai_Longitude :: "number option"

record connection =
  conn_connectionType :: "string option"
  conn_level :: "string option"
  conn_powerKW :: "number option"
  conn_quantity :: "nat option"

record feature =
  f_coordinates :: "(number \<times> number) option"
  f_id :: int
  f_title :: "string option"
  f_Title :: "string option"
  f_addressInfo :: "addressInfo option"
  f_AddressInfo :: "addressInfo option"
  f_connections :: "connection list"
  f_statusType :: "(int \<times> string) option"
  f_usageType :: "(int \<times> string) option"
  f_usageCost :: "string option"
  f_operatorInfo :: "string option"
  f_OperatorInfo :: "string option"
  f_isCustomStation :: bool
  f_googleMapsLink :: "string option"

section \<open>services/chargingStations.ts\<close>

subsection \<open>The synthetic numeric id\<close>

text \<open>
  \<^verbatim>\<open>const hash = station.id.split('').reduce((acc, char) => {
      const code = char.charCodeAt(0);
      return ((acc << 5) - acc) + code | 0;
  }, 0);
  const numericId = Math.abs(hash) + 1000000;\<close>

  \<^verbatim>\<open>x | 0\<close> and \<^verbatim>\<open>x << 5\<close> convert to a signed 32-bit integer (\<open>toInt32\<close>); the
  subtraction and the addition between them are exact, since their operands are below
  \<open>2 ^ 53\<close>. \<^verbatim>\<open>+\<close> binds tighter than \<^verbatim>\<open>|\<close>. A character of a \<open>string\<close> is one
  code unit, \<open>of_char\<close> its code.
\<close>

definition toInt32 :: "int \<Rightarrow> int" where
  "toInt32 x = (x + 2 ^ 31) mod 2 ^ 32 - 2 ^ 31"

definition shiftLeft5 :: "int \<Rightarrow> int" where
  "shiftLeft5 acc = toInt32 (toInt32 acc * 2 ^ 5)"

definition hashStep :: "int \<Rightarrow> char \<Rightarrow> int" where
  "hashStep acc char = (let code = of_char char in toInt32 ((shiftLeft5 acc - acc) + code))"

definition idHash :: "string \<Rightarrow> int" where
  "idHash s = foldl hashStep 0 s"

definition numericId :: "string \<Rightarrow> int" where
  "numericId s = \<bar>idHash s\<bar> + 1000000"

subsection \<open>convertToOCMFormat and mergeStationsWithOCM\<close>

text \<open>\<^verbatim>\<open>a || b\<close> on an optional string: \<^verbatim>\<open>null\<close> and the empty string are falsy.\<close>

definition truthy :: "string option \<Rightarrow> string option" where
  "truthy v = (case v of None \<Rightarrow> None | Some s \<Rightarrow> if s = [] then None else Some s)"

definition convertToOCMFormat :: "chargingStation \<Rightarrow> feature option" where
  "convertToOCMFormat station =
    (case (cs_latitude station, cs_longitude station) of
       (Some latitude, Some longitude) \<Rightarrow>
         Some \<lparr> f_coordinates = Some (longitude, latitude),
                f_id = numericId (cs_id station),
                f_title = Some (cs_address station),
                f_Title = None,
                f_addressInfo = Some \<lparr> ai_title = Some (cs_address station),
                                       ai_Title = None,
                                       ai_addressLine1 = Some (cs_address station),
                                       ai_AddressLine1 = None,
                                       ai_town = Some [],
                                       ai_Town = None,
                                       ai_stateOrProvince = Some ''Albania'',
                                       ai_StateOrProvince = None,
                                       ai_postcode = Some [],
                                       ai_Postcode = None,
                                       ai_latitude = Some latitude,
                                       ai_Latitude = None,
                                       ai_longitude = Some longitude,
                                       ai_Longitude = None \<rparr>,
                f_AddressInfo = None,
                f_connections = [\<lparr> conn_connectionType = Some (cs_plugTypes station),
                                    conn_level = Some ''Fast'',
                                    conn_powerKW = Some (cs_chargingSpeedKw station),
                                    conn_quantity = Some 1 \<rparr>],
                f_statusType = Some (50, ''Operational''),
                f_usageType = Some (1, ''Public''),
                f_usageCost = truthy (cs_pricingDetails station),
                f_operatorInfo = Some (case truthy (cs_operator station) of
                                         Some s \<Rightarrow> s | None \<Rightarrow> ''Custom Station''),
                f_OperatorInfo = None,
                f_isCustomStation = True,
                f_googleMapsLink = cs_googleMapsLink station \<rparr>
     | _ \<Rightarrow> None)"

definition mergeStationsWithOCM :: "chargingStation list \<Rightarrow> feature list \<Rightarrow> feature list" where
  "mergeStationsWithOCM customStations ocmStations =
    (let convertedCustomStations = List.map_filter convertToOCMFormat customStations
     in ocmStations @ convertedCustomStations)"

section \<open>The page: viewport, query context, in-flight loads\<close>

datatype fetch_mode = Country | Bounds

text \<open>A Leaflet \<^verbatim>\<open>LatLngBounds\<close>: its north-east and south-west corners. Map viewports
  are finite.\<close>

record latLngBounds =
  ne_lat :: rat
  ne_lng :: rat
  sw_lat :: rat
  sw_lng :: rat

text \<open>\<^verbatim>\<open>BoundsTuple = [topLat, leftLng, bottomLat, rightLng]\<close>.\<close>

type_synonym boundsTuple = "rat \<times> rat \<times> rat \<times> rat"

text \<open>\<^verbatim>\<open>L.latLngBounds(corner1, corner2)\<close> extends an empty box by both corners.\<close>

definition L_latLngBounds :: "rat \<times> rat \<Rightarrow> rat \<times> rat \<Rightarrow> latLngBounds" where
  "L_latLngBounds c1 c2 =
    \<lparr> ne_lat = max (fst c1) (fst c2), ne_lng = max (snd c1) (snd c2),
      sw_lat = min (fst c1) (fst c2), sw_lng = min (snd c1) (snd c2) \<rparr>"

definition boundsFromTuple :: "boundsTuple option \<Rightarrow> latLngBounds option" where
  "boundsFromTuple tuple =
    (case tuple of
       None \<Rightarrow> None
     | Some (topLat, leftLng, bottomLat, rightLng) \<Rightarrow>
         Some (L_latLngBounds (bottomLat, leftLng) (topLat, rightLng)))"

text \<open>\<^verbatim>\<open>getBoundingBoxFromBounds\<close> joins four numbers with commas; the model keeps the
  four numbers.\<close>

definition getBoundingBoxFromBounds :: "latLngBounds \<Rightarrow> boundsTuple" where
  "getBoundingBoxFromBounds b =
    (let topLeftLat = ne_lat b; topLeftLng = sw_lng b;
         bottomRightLat = sw_lat b; bottomRightLng = ne_lng b
     in (topLeftLat, topLeftLng, bottomRightLat, bottomRightLng))"

text \<open>\<^verbatim>\<open>Number(x.toFixed(6))\<close>: \<^verbatim>\<open>toFixed\<close> rounds the magnitude of \<open>x\<close> to the nearest
  multiple of \<open>10\<^sup>-\<^sup>6\<close>, the larger one on a tie, and puts the sign back.\<close>

definition toFixed6 :: "rat \<Rightarrow> rat" where
  "toFixed6 x = sgn x * (of_int \<lfloor>\<bar>x\<bar> * 1000000 + 1 / 2\<rfloor> / 1000000)"

record queryContext =
  ctx_mode :: fetch_mode
  ctx_bounds :: "boundsTuple option"

text \<open>The two members of the \<^verbatim>\<open>Promise.all\<close> of \<^verbatim>\<open>loadStations\<close>, with the arguments
  they are called with: \<^verbatim>\<open>fetchStations({mode, boundingBox, signal})\<close>, whose signal is
  the address of an \<^verbatim>\<open>AbortController\<close>, and \<^verbatim>\<open>fetchChargingStations()\<close>, which
  takes no argument.\<close>

datatype request =
    FetchStations fetch_mode "boundsTuple option" nat
  | FetchChargingStations

fun request_signal :: "request \<Rightarrow> nat option" where
  "request_signal (FetchStations _ _ signal) = Some signal"
| "request_signal FetchChargingStations = None"

text \<open>A call of \<^verbatim>\<open>loadStations\<close> suspended at its \<^verbatim>\<open>await\<close>: the locals of its
  closure.\<close>

record pendingLoad =
  pl_mode :: fetch_mode
  pl_requestToken :: nat
  pl_controller :: nat
  pl_sourceBounds :: "latLngBounds option"
  pl_nextContext :: queryContext
  pl_requests :: "request list"

text \<open>A settled promise; a rejection carries \<open>Some message\<close> when the reason is an
  \<^verbatim>\<open>Error\<close>.\<close>

datatype 'a settled = Fulfilled 'a | Rejected "string option"

text \<open>Lines of the browser console: \<^verbatim>\<open>console.warn(text)\<close>, \<^verbatim>\<open>console.error(reason)\<close> and
  \<^verbatim>\<open>console.error(text, reason)\<close>.\<close>

datatype consoleEntry =
    ConsoleWarn string
  | ConsoleError "string option"
  | ConsoleErrorAbout string "string option"

text \<open>A pending \<^verbatim>\<open>window.setTimeout\<close> of \<^verbatim>\<open>handleMapMove\<close>; its callback is
  \<^verbatim>\<open>loadStations('bounds', { bounds })\<close>.\<close>

record timer =
  tm_id :: nat
  tm_due :: nat
  tm_bounds :: latLngBounds

record loadCall =
  lc_time :: nat
  lc_mode :: fetch_mode
  lc_bounds :: "latLngBounds option"

text \<open>
  The component's state and refs, and its environment: the heap of abort controllers
  (\<open>controllers ! c\<close> is \<^verbatim>\<open>signal.aborted\<close> of the controller at address \<open>c\<close>), the
  suspended loads, the browser's timer queue and clock (milliseconds), and the console.
  \<open>mapRef\<close> is the Leaflet map reduced to its current viewport bounds, \<open>None\<close> when
  \<^verbatim>\<open>mapRef.current\<close> is \<^verbatim>\<open>null\<close>. \<open>loadLog\<close> records each call of \<^verbatim>\<open>loadStations\<close>
  with its arguments and time; nothing reads it. \<open>requestTokenRef\<close> counts the calls of
  \<^verbatim>\<open>loadStations\<close> and stays below \<open>2\<^sup>5\<^sup>3\<close>, where JavaScript's addition is exact.
  Centre, zoom, selection, paging and the URL parameters are not modelled.
\<close>

record page =
  autoUpdate :: bool
  searchTerm :: string
  stations :: "feature list"
  loadingStations :: bool
  error :: "string option"
  lastUpdated :: "nat option"
  pendingSearch :: bool
  mapRef :: "latLngBounds option"
  fetchControllerRef :: "nat option"
  requestTokenRef :: nat
  lastNonEmptyStationsRef :: "feature list option"
  lastContextRef :: queryContext
  pendingBoundsRef :: "latLngBounds option"
  moveDebounceRef :: "nat option"
  hasLoadedOnceRef :: bool
  controllers :: "bool list"
  inflight :: "pendingLoad list"
  timers :: "timer list"
  nextTimer :: nat
  now :: nat
  console :: "consoleEntry list"
  loadLog :: "loadCall list"

definition initial :: "bool \<Rightarrow> string \<Rightarrow> page" where
  "initial auto q =
    \<lparr> autoUpdate = auto, searchTerm = q, stations = [], loadingStations = False,
      error = None, lastUpdated = None, pendingSearch = False, mapRef = None,
      fetchControllerRef = None, requestTokenRef = 0, lastNonEmptyStationsRef = None,
      lastContextRef = \<lparr> ctx_mode = Country, ctx_bounds = None \<rparr>,
      pendingBoundsRef = None, moveDebounceRef = None, hasLoadedOnceRef = False,
      controllers = [], inflight = [], timers = [], nextTimer = 1, now = 0,
      console = [], loadLog = [] \<rparr>"

subsection \<open>loadStations\<close>

definition signal_aborted :: "page \<Rightarrow> nat \<Rightarrow> bool" where
  "signal_aborted s c = (c < length (controllers s) \<and> controllers s ! c)"

definition abort :: "nat \<Rightarrow> page \<Rightarrow> page" where
  "abort c s = s\<lparr>controllers := (controllers s)[c := True]\<rparr>"

definition nextContextOf :: "latLngBounds option \<Rightarrow> queryContext" where
  "nextContextOf sourceBounds =
    (case sourceBounds of
       Some b \<Rightarrow> \<lparr> ctx_mode = Bounds,
                   ctx_bounds = Some (toFixed6 (ne_lat b), toFixed6 (sw_lng b),
                                      toFixed6 (sw_lat b), toFixed6 (ne_lng b)) \<rparr>
     | None \<Rightarrow> \<lparr> ctx_mode = Country, ctx_bounds = None \<rparr>)"

text \<open>The synchronous part of \<^verbatim>\<open>loadStations(mode, options)\<close>, up to the \<^verbatim>\<open>await\<close>;
  \<open>optBounds\<close> is \<^verbatim>\<open>options.bounds\<close>.\<close>

definition loadStations :: "fetch_mode \<Rightarrow> latLngBounds option \<Rightarrow> page \<Rightarrow> page" where
  "loadStations mode optBounds s =
    (let s1 = (case fetchControllerRef s of Some c \<Rightarrow> abort c s | None \<Rightarrow> s);
         controller = length (controllers s1);
         s2 = s1\<lparr>controllers := controllers s1 @ [False],
                 fetchControllerRef := Some controller,
                 requestTokenRef := requestTokenRef s1 + 1\<rparr>;
         requestToken = requestTokenRef s2;
         s3 = s2\<lparr>loadingStations := True, error := None\<rparr>;
         sourceBounds = (if mode = Bounds
                         then (case optBounds of Some b \<Rightarrow> Some b | None \<Rightarrow> mapRef s3)
                         else None);
         nextContext = nextContextOf sourceBounds;
         requests = [if mode = Country then FetchStations Country None controller
                     else FetchStations Bounds (map_option getBoundingBoxFromBounds optBounds)
                            controller,
                     FetchChargingStations]
     in s3\<lparr>inflight := inflight s3 @
                [\<lparr> pl_mode = mode, pl_requestToken = requestToken, pl_controller = controller,
                   pl_sourceBounds = sourceBounds, pl_nextContext = nextContext,
                   pl_requests = requests \<rparr>],
            loadLog := loadLog s3 @
                [\<lparr> lc_time = now s3, lc_mode = mode, lc_bounds = optBounds \<rparr>]\<rparr>)"

text \<open>\<^verbatim>\<open>fetchChargingStations\<close> of the service, given how the store's query settled: the
  lines it writes to the console and how its own promise settles. On a failure it logs
  the reason and rethrows an error of its own. The caller's \<^verbatim>\<open>.catch(() => [])\<close> turns a
  rejection into the empty list.\<close>

definition fetchChargingStations ::
  "chargingStation list settled \<Rightarrow> consoleEntry list \<times> chargingStation list settled" where
  "fetchChargingStations snapshot =
    (case snapshot of
       Fulfilled docs \<Rightarrow> ([], Fulfilled docs)
     | Rejected reason \<Rightarrow>
         ([ConsoleErrorAbout ''Error fetching charging stations:'' reason],
          Rejected (Some ''Failed to fetch charging stations'')))"

definition catchEmpty :: "chargingStation list settled \<Rightarrow> chargingStation list" where
  "catchEmpty p = (case p of Fulfilled xs \<Rightarrow> xs | Rejected _ \<Rightarrow> [])"

text \<open>What a load gets from \<^verbatim>\<open>fetchChargingStations().catch(() => [])\<close>, and what the
  service has logged meanwhile.\<close>

definition customStationsOf :: "chargingStation list settled \<Rightarrow> chargingStation list" where
  "customStationsOf store = catchEmpty (snd (fetchChargingStations store))"

definition serviceLog :: "chargingStation list settled \<Rightarrow> consoleEntry list" where
  "serviceLog store = fst (fetchChargingStations store)"

definition warnKeeping :: string where
  "warnKeeping = ''Open Charge Map returned 0 stations for the current bounds; keeping previous markers.''"

text \<open>The body of the \<^verbatim>\<open>try\<close> after the \<^verbatim>\<open>await\<close>, for a fulfilled \<^verbatim>\<open>Promise.all\<close>.
  \<^verbatim>\<open>fetchStations\<close> resolves with an object, as its type says; \<open>ocmData\<close> is its
  \<^verbatim>\<open>features\<close>, \<open>None\<close> when that is not an array. State updates take effect at once.\<close>

definition applyResult ::
  "pendingLoad \<Rightarrow> feature list option \<Rightarrow> chargingStation list \<Rightarrow> page \<Rightarrow> page" where
  "applyResult p ocmData customStations s =
    (if pl_requestToken p \<noteq> requestTokenRef s then s
     else
       let ocmFeatures = (case ocmData of Some fs \<Rightarrow> fs | None \<Rightarrow> []);
           features = mergeStationsWithOCM customStations ocmFeatures;
           hasFeatures = (length features > 0);
           s1 = s\<lparr>lastContextRef := pl_nextContext p\<rparr>;
           s2 = (if hasFeatures
                 then s1\<lparr>stations := features, lastNonEmptyStationsRef := Some features\<rparr>
                 else if \<not> hasLoadedOnceRef s1
                 then s1\<lparr>stations := [], lastNonEmptyStationsRef := None\<rparr>
                 else (case lastNonEmptyStationsRef s1 of
                         Some (x # xs) \<Rightarrow>
                           s1\<lparr>console := console s1 @ [ConsoleWarn warnKeeping],
                              stations := (if stations s1 \<noteq> [] then stations s1 else x # xs)\<rparr>
                       | _ \<Rightarrow> s1\<lparr>stations := []\<rparr>));
           s3 = s2\<lparr>lastUpdated := Some (now s2), hasLoadedOnceRef := True\<rparr>
       in (case pl_sourceBounds p of
             Some b \<Rightarrow> s3\<lparr>pendingBoundsRef := Some b\<rparr>
           | None \<Rightarrow> s3))"

text \<open>The rest of \<^verbatim>\<open>loadStations\<close>, run when both of its fetches have settled: \<open>ocm\<close> is
  how \<^verbatim>\<open>fetchStations\<close> settled, \<open>store\<close> how the store's query did. The service has
  written its console lines by then, whether or not the load is still the current one.
  (When the third-party fetch is rejected, \<^verbatim>\<open>Promise.all\<close> rejects without waiting for
  the store, and a line of the service may in fact come after the page's; the model puts
  it first.) The \<^verbatim>\<open>finally\<close> block runs on every path.\<close>

definition resume ::
  "pendingLoad \<Rightarrow> feature list option settled \<Rightarrow> chargingStation list settled \<Rightarrow> page \<Rightarrow> page" where
  "resume p ocm store s =
    (let (logged, settledStore) = fetchChargingStations store;
         s0 = s\<lparr>console := console s @ logged\<rparr>;
         aborted = signal_aborted s0 (pl_controller p);
         customStations = catchEmpty settledStore;
         s1 = (case ocm of
                 Fulfilled ocmData \<Rightarrow> applyResult p ocmData customStations s0
               | Rejected err \<Rightarrow>
                   if aborted then s0
                   else s0\<lparr>console := console s0 @ [ConsoleError err],
                           error := Some (case err of Some message \<Rightarrow> message
                                          | None \<Rightarrow> ''Failed to load charging locations'')\<rparr>)
     in if \<not> aborted then s1\<lparr>loadingStations := False\<rparr> else s1)"

subsection \<open>The debounce timer and the handlers\<close>

definition clearTimeout :: "nat \<Rightarrow> page \<Rightarrow> page" where
  "clearTimeout i s = s\<lparr>timers := filter (\<lambda>t. tm_id t \<noteq> i) (timers s)\<rparr>"

text \<open>\<^verbatim>\<open>window.setTimeout(() => loadStations('bounds', { bounds }), delay)\<close>; timer ids are
  positive, so a stored id is truthy.\<close>

definition setTimeout :: "latLngBounds \<Rightarrow> nat \<Rightarrow> page \<Rightarrow> nat \<times> page" where
  "setTimeout b delay s =
    (nextTimer s,
     s\<lparr>timers := timers s @ [\<lparr> tm_id = nextTimer s, tm_due = now s + delay, tm_bounds = b \<rparr>],
       nextTimer := nextTimer s + 1\<rparr>)"

definition handleMapMove :: "page \<Rightarrow> page" where
  "handleMapMove s =
    (case mapRef s of
       None \<Rightarrow> s
     | Some b \<Rightarrow>
         if autoUpdate s then
           let s1 = s\<lparr>pendingSearch := False, pendingBoundsRef := Some b\<rparr>;
               s2 = (case moveDebounceRef s1 of Some i \<Rightarrow> clearTimeout i s1 | None \<Rightarrow> s1);
               (i, s3) = setTimeout b 450 s2
           in s3\<lparr>moveDebounceRef := Some i\<rparr>
         else s\<lparr>pendingBoundsRef := Some b, pendingSearch := True\<rparr>)"

definition handleSearchArea :: "page \<Rightarrow> page" where
  "handleSearchArea s =
    (case (case pendingBoundsRef s of Some b \<Rightarrow> Some b | None \<Rightarrow> mapRef s) of
       Some b \<Rightarrow> loadStations Bounds (Some b) (s\<lparr>pendingSearch := False\<rparr>)
     | None \<Rightarrow> s)"

definition handleRetry :: "page \<Rightarrow> page" where
  "handleRetry s =
    (let context = lastContextRef s
     in if ctx_mode context = Bounds
        then (case boundsFromTuple (ctx_bounds context) of
                Some b \<Rightarrow> loadStations Bounds (Some b) s
              | None \<Rightarrow> loadStations Country None s)
        else loadStations Country None s)"

text \<open>\<^verbatim>\<open>handleToggleAutoUpdate\<close>, followed by the effect that depends on \<^verbatim>\<open>autoUpdate\<close>.\<close>

definition autoUpdateEffect :: "page \<Rightarrow> page" where
  "autoUpdateEffect s =
    (if autoUpdate s
     then (case mapRef s of
             Some b \<Rightarrow> loadStations Bounds (Some b) (s\<lparr>pendingSearch := False\<rparr>)
           | None \<Rightarrow> s)
     else s)"

definition handleToggleAutoUpdate :: "page \<Rightarrow> page" where
  "handleToggleAutoUpdate s = autoUpdateEffect (s\<lparr>autoUpdate := \<not> autoUpdate s\<rparr>)"

text \<open>The effects of mounting, in the order they are declared: the initial country load,
  the auto-update effect (the map does not exist yet), the creation of the map with
  viewport \<open>b\<close>.\<close>

definition mount :: "latLngBounds \<Rightarrow> page \<Rightarrow> page" where
  "mount b s =
    (let s1 = loadStations Country None s;
         s2 = autoUpdateEffect s1
     in (case mapRef s2 of None \<Rightarrow> s2\<lparr>mapRef := Some b\<rparr> | Some _ \<Rightarrow> s2))"

text \<open>The cleanups of unmounting: abort the current controller, clear the debounce timer,
  remove the map.\<close>

definition unmount :: "page \<Rightarrow> page" where
  "unmount s =
    (let s1 = (case fetchControllerRef s of Some c \<Rightarrow> abort c s | None \<Rightarrow> s);
         s2 = (case moveDebounceRef s1 of Some i \<Rightarrow> clearTimeout i s1 | None \<Rightarrow> s1)
     in s2\<lparr>mapRef := None\<rparr>)"

text \<open>Time passes in steps of \<open>d\<close> milliseconds. A timer that has become due runs its
  callback at its due time, earlier timers first; the callbacks set no timers.\<close>

definition fireTimer :: "timer \<Rightarrow> page \<Rightarrow> page" where
  "fireTimer t s =
    loadStations Bounds (Some (tm_bounds t))
      (s\<lparr>timers := filter (\<lambda>u. tm_id u \<noteq> tm_id t) (timers s), now := max (now s) (tm_due t)\<rparr>)"

definition advance :: "nat \<Rightarrow> page \<Rightarrow> page" where
  "advance d s =
    (let target = now s + d;
         due = sort_key tm_due (filter (\<lambda>t. tm_due t \<le> target) (timers s))
     in (fold fireTimer due s)\<lparr>now := target\<rparr>)"

text \<open>Settling the suspended load with request token \<open>k\<close>.\<close>

definition settle ::
  "nat \<Rightarrow> feature list option settled \<Rightarrow> chargingStation list settled \<Rightarrow> page \<Rightarrow> page" where
  "settle k ocm store s =
    (case find (\<lambda>p. pl_requestToken p = k) (inflight s) of
       None \<Rightarrow> s
     | Some p \<Rightarrow> resume p ocm store (s\<lparr>inflight := remove1 p (inflight s)\<rparr>))"

subsection \<open>Events\<close>

text \<open>What can happen to the page: mounting, a pan or zoom of the map to a new viewport
  (\<^verbatim>\<open>moveend\<close>/\<^verbatim>\<open>zoomend\<close>), time passing, a load's promise settling, the three buttons,
  typing in the search box, unmounting.\<close>

datatype event =
    Mount latLngBounds
  | MapMove latLngBounds
  | Advance nat
  | Settle nat "feature list option settled" "chargingStation list settled"
  | SearchArea
  | Retry
  | ToggleAuto
  | SearchInput string
  | Unmount

fun step :: "event \<Rightarrow> page \<Rightarrow> page" where
  "step (Mount b) s = mount b s"
| "step (MapMove b) s =
     (case mapRef s of None \<Rightarrow> s | Some _ \<Rightarrow> handleMapMove (s\<lparr>mapRef := Some b\<rparr>))"
| "step (Advance d) s = advance d s"
| "step (Settle k ocm store) s = settle k ocm store s"
| "step SearchArea s = handleSearchArea s"
| "step Retry s = handleRetry s"
| "step ToggleAuto s = handleToggleAutoUpdate s"
| "step (SearchInput q) s = s\<lparr>searchTerm := q\<rparr>"
| "step Unmount s = unmount s"

declare step.simps [simp del]

definition run :: "event list \<Rightarrow> page \<Rightarrow> page" where
  "run evs s = fold step evs s"

text \<open>A burst of map moves: each pair is the time since the previous move and the new
  viewport.\<close>

fun burst :: "(nat \<times> latLngBounds) list \<Rightarrow> event list" where
  "burst [] = []"
| "burst ((d, b) # rest) = Advance d # MapMove b # burst rest"

text \<open>The events that leave \<^verbatim>\<open>pendingBoundsRef\<close> alone: all but a map move and a fulfilled
  load.\<close>

fun quiet :: "event \<Rightarrow> bool" where
  "quiet (MapMove _) = False"
| "quiet (Settle _ (Fulfilled _) _) = False"
| "quiet _ = True"

definition reachable :: "page \<Rightarrow> bool" where
  "reachable s = (\<exists>auto q evs. s = run evs (initial auto q))"

subsection \<open>What a call of loadStations leaves behind\<close>

text \<open>The controller heap after \<^verbatim>\<open>fetchControllerRef.current.abort()\<close>, and the suspended
  load the call creates; both are read off \<open>loadStations\<close>.\<close>

definition abortCurrent :: "page \<Rightarrow> bool list" where
  "abortCurrent s = (case fetchControllerRef s of Some c \<Rightarrow> (controllers s)[c := True] | None \<Rightarrow> controllers s)"

definition newLoad :: "fetch_mode \<Rightarrow> latLngBounds option \<Rightarrow> page \<Rightarrow> pendingLoad" where
  "newLoad m ob s =
    (let sourceBounds = (if m = Bounds then (case ob of Some b \<Rightarrow> Some b | None \<Rightarrow> mapRef s) else None)
     in \<lparr> pl_mode = m, pl_requestToken = requestTokenRef s + 1, pl_controller = length (controllers s),
          pl_sourceBounds = sourceBounds, pl_nextContext = nextContextOf sourceBounds,
          pl_requests = [if m = Country then FetchStations Country None (length (controllers s))
                         else FetchStations Bounds (map_option getBoundingBoxFromBounds ob) (length (controllers s)),
                         FetchChargingStations] \<rparr>)"

subsection \<open>Invariants of the reachable states\<close>

text \<open>Suspended loads: request tokens are distinct and at most the current one; a load
  that is not the current one has an aborted controller; a load whose controller is not
  aborted is the one \<^verbatim>\<open>fetchControllerRef\<close> points to; the context a load carries is the
  one computed from its source bounds, which exist exactly in bounds mode.\<close>

definition loads_inv :: "page \<Rightarrow> bool" where
  "loads_inv s \<longleftrightarrow>
     distinct (map pl_requestToken (inflight s)) \<and>
     (\<forall>c. fetchControllerRef s = Some c \<longrightarrow> c < length (controllers s)) \<and>
     (\<forall>p \<in> set (inflight s).
        pl_controller p < length (controllers s) \<and>
        pl_requestToken p \<le> requestTokenRef s \<and>
        (pl_requestToken p \<noteq> requestTokenRef s \<longrightarrow> signal_aborted s (pl_controller p)) \<and>
        (\<not> signal_aborted s (pl_controller p) \<longrightarrow> fetchControllerRef s = Some (pl_controller p)) \<and>
        pl_nextContext p = nextContextOf (pl_sourceBounds p) \<and>
        (pl_mode p = Bounds \<longleftrightarrow> pl_sourceBounds p \<noteq> None))"

text \<open>The timer queue holds at most one timer, the one \<^verbatim>\<open>moveDebounceRef\<close> names.\<close>

definition timers_inv :: "page \<Rightarrow> bool" where
  "timers_inv s \<longleftrightarrow>
     length (timers s) \<le> 1 \<and> (\<forall>t \<in> set (timers s). moveDebounceRef s = Some (tm_id t))"

text \<open>The displayed list is the last non-empty list, or empty when there is none; the
  stored context has bounds exactly in bounds mode.\<close>

definition display_inv :: "page \<Rightarrow> bool" where
  "display_inv s \<longleftrightarrow>
     stations s = (case lastNonEmptyStationsRef s of Some l \<Rightarrow> l | None \<Rightarrow> []) \<and>
     lastNonEmptyStationsRef s \<noteq> Some [] \<and>
     (lastNonEmptyStationsRef s \<noteq> None \<longrightarrow> hasLoadedOnceRef s) \<and>
     (ctx_mode (lastContextRef s) = Bounds \<longleftrightarrow> ctx_bounds (lastContextRef s) \<noteq> None)"

text \<open>The page right after a map move with auto-update on: one timer, due in 450 ms,
  carrying the viewport \<open>b\<close>.\<close>

definition armed :: "page \<Rightarrow> latLngBounds \<Rightarrow> bool" where
  "armed s b \<longleftrightarrow>
     autoUpdate s \<and> mapRef s \<noteq> None \<and>
     (\<exists>i. timers s = [\<lparr> tm_id = i, tm_due = now s + 450, tm_bounds = b \<rparr>]
          \<and> moveDebounceRef s = Some i)"

definition page_inv :: "page \<Rightarrow> bool" where
  "page_inv s \<longleftrightarrow> loads_inv s \<and> timers_inv s \<and> display_inv s"

section \<open>List view and map markers\<close>

text \<open>\<^verbatim>\<open>toLowerCase\<close> on code units below 256: the letters A to Z and the capital
  letters U+00C0 to U+00DE (the multiplication sign U+00D7 apart) have their lower-case
  form 32 above; every other code unit is kept.\<close>

definition isUpper :: "char \<Rightarrow> bool" where
  "isUpper c =
    (let n = (of_char c :: nat)
     in (65 \<le> n \<and> n \<le> 90) \<or> (192 \<le> n \<and> n \<le> 222 \<and> n \<noteq> 215))"

definition toLowerCase :: "string \<Rightarrow> string" where
  "toLowerCase s = map (\<lambda>c. if isUpper c then char_of (of_char c + (32 :: nat)) else c) s"

text \<open>\<^verbatim>\<open>trim\<close> removes white space and line terminators at both ends; below 256 these
  are tab, line feed, vertical tab, form feed, carriage return, space and the no-break
  space U+00A0.\<close>

definition isSpace :: "char \<Rightarrow> bool" where
  "isSpace c = ((of_char c :: nat) \<in> {9, 10, 11, 12, 13, 32, 160})"

definition trim :: "string \<Rightarrow> string" where
  "trim s = rev (dropWhile isSpace (rev (dropWhile isSpace s)))"

fun join :: "string \<Rightarrow> string list \<Rightarrow> string" where
  "join sep [] = []"
| "join sep [x] = x"
| "join sep (x # y # ys) = x @ sep @ join sep (y # ys)"

text \<open>\<^verbatim>\<open>s.includes(q)\<close>.\<close>

definition str_includes :: "string \<Rightarrow> string \<Rightarrow> bool" where
  "str_includes s q = sublist q s"

text \<open>\<^verbatim>\<open>[...new Set(segments)]\<close> keeps the first occurrence of each segment.\<close>

definition uniqueSegments :: "string list \<Rightarrow> string list" where
  "uniqueSegments segments = rev (remdups (rev segments))"

text \<open>\<^verbatim>\<open>a || b\<close> on two optional strings, and on two optional objects.\<close>

definition orElse :: "string option \<Rightarrow> string option \<Rightarrow> string option" where
  "orElse a b = (case truthy a of Some s \<Rightarrow> Some s | None \<Rightarrow> b)"

definition orObject :: "'a option \<Rightarrow> 'a option \<Rightarrow> 'a option" where
  "orObject a b = (case a of Some x \<Rightarrow> Some x | None \<Rightarrow> b)"

definition formatAddress :: "feature \<Rightarrow> string" where
  "formatAddress f =
    (case orObject (f_addressInfo f) (f_AddressInfo f) of
       None \<Rightarrow> []
     | Some a \<Rightarrow>
         join '', '' (uniqueSegments (List.map_filter truthy
           [orElse (ai_title a) (ai_Title a),
            orElse (ai_addressLine1 a) (ai_AddressLine1 a),
            orElse (ai_town a) (ai_Town a),
            orElse (ai_stateOrProvince a) (ai_StateOrProvince a),
            orElse (ai_postcode a) (ai_Postcode a)])))"

definition orEmpty :: "string option \<Rightarrow> string" where
  "orEmpty v = (case truthy v of Some s \<Rightarrow> s | None \<Rightarrow> [])"

text \<open>The comparator \<^verbatim>\<open>bIsCustom - aIsCustom\<close> of a stable sort: first-party records
  first.\<close>

definition customRank :: "feature \<Rightarrow> nat" where
  "customRank f = (if f_isCustomStation f then 0 else 1)"

text \<open>The predicate of the \<^verbatim>\<open>filter\<close> in \<^verbatim>\<open>visibleStations\<close>.\<close>

definition matchesQuery :: "string \<Rightarrow> feature \<Rightarrow> bool" where
  "matchesQuery query f =
    (let address = toLowerCase (formatAddress f);
         operator = toLowerCase (orEmpty (orElse (f_operatorInfo f) (f_OperatorInfo f)));
         title = toLowerCase (orEmpty (orElse (f_title f) (f_Title f)))
     in str_includes title query \<or> str_includes operator query \<or> str_includes address query)"

definition visibleStations :: "string \<Rightarrow> feature list \<Rightarrow> feature list" where
  "visibleStations term sts =
    (let sorted = sort_key customRank sts;
         query = toLowerCase (trim term)
     in if query = [] then sorted else filter (matchesQuery query) sorted)"

definition getStationLatLng :: "feature \<Rightarrow> number \<times> number" where
  "getStationLatLng f =
    (let fromAddress =
           (case orObject (f_addressInfo f) (f_AddressInfo f) of
              None \<Rightarrow> (Fin 0, Fin 0)
            | Some a \<Rightarrow>
                (case orObject (ai_latitude a) (ai_Latitude a) of Some v \<Rightarrow> v | None \<Rightarrow> Fin 0,
                 case orObject (ai_longitude a) (ai_Longitude a) of Some v \<Rightarrow> v | None \<Rightarrow> Fin 0))
     in case f_coordinates f of
          Some (lng, lat) \<Rightarrow> if isFinite lat \<and> isFinite lng then (lat, lng) else fromAddress
        | None \<Rightarrow> fromAddress)"

record marker =
  mk_latLng :: "number \<times> number"
  mk_title :: string
  mk_customIcon :: bool
  mk_feature :: int

text \<open>The marker effect: the layers added to the cluster group, in the order they are
  added. It iterates \<^verbatim>\<open>visibleStations\<close>. The marker's title is
  \<^verbatim>\<open>properties.title ?? 'Charging station'\<close>, the camelCase spelling only.\<close>

definition markerOf :: "feature \<Rightarrow> marker option" where
  "markerOf f =
    (let latLng = getStationLatLng f
     in if \<not> isFinite (fst latLng) \<or> \<not> isFinite (snd latLng) then None
        else Some \<lparr> mk_latLng = latLng,
                    mk_title = (case f_title f of Some t \<Rightarrow> t | None \<Rightarrow> ''Charging station''),
                    mk_customIcon = f_isCustomStation f,
                    mk_feature = f_id f \<rparr>)"

definition markerLayers :: "page \<Rightarrow> marker list" where
  "markerLayers s = List.map_filter markerOf (visibleStations (searchTerm s) (stations s))"

section \<open>Sample data\<close>

definition sampleStation :: "string \<Rightarrow> number option \<Rightarrow> number option \<Rightarrow> chargingStation" where
  "sampleStation i lat lng =
    \<lparr> cs_id = i, cs_address = ''Rruga e Durresit 1'', cs_plugTypes = ''CCS2'',
      cs_chargingSpeedKw = Fin 50, cs_operator = None, cs_pricingDetails = Some [],
      cs_googleMapsLink = None, cs_latitude = lat, cs_longitude = lng \<rparr>"

definition sampleFeature :: "int \<Rightarrow> feature" where
  "sampleFeature i =
    \<lparr> f_coordinates = Some (Fin 20, Fin 41), f_id = i, f_title = Some ''Tirana Hub'',
      f_Title = None, f_addressInfo = None, f_AddressInfo = None, f_connections = [],
      f_statusType = None, f_usageType = None, f_usageCost = None, f_operatorInfo = None,
      f_OperatorInfo = None, f_isCustomStation = False, f_googleMapsLink = None \<rparr>"

definition box :: "rat \<Rightarrow> rat \<Rightarrow> rat \<Rightarrow> rat \<Rightarrow> latLngBounds" where
  "box n e s w = \<lparr> ne_lat = n, ne_lng = e, sw_lat = s, sw_lng = w \<rparr>"

definition sampleBox :: latLngBounds where
  "sampleBox = box 42 21 40 19"
definition mountedPage :: "bool \<Rightarrow> page" where
  "mountedPage auto = run [Mount sampleBox] (initial auto [])"

definition viewBox :: latLngBounds where
  "viewBox = box (413/10) (201234567/10000000) 41 (197/10)"

definition loadedPage :: page where
  "loadedPage = run [Mount sampleBox, Settle 1 (Fulfilled (Some [sampleFeature 7])) (Fulfilled [])]
                  (initial False [])"

definition searchingPage :: page where
  "searchingPage = run [MapMove viewBox, SearchArea] loadedPage"

text \<open>After a search of \<open>viewBox\<close> has been started the map is moved on to \<open>movedBox\<close>,
  and only then does the search settle.\<close>

definition movedBox :: latLngBounds where
  "movedBox = box 42 (41/2) (83/2) 20"

definition lateResponsePage :: page where
  "lateResponsePage =
     run [MapMove movedBox, Settle 2 (Fulfilled (Some [sampleFeature 7])) (Fulfilled [])] searchingPage"


definition mixedPage :: page where
  "mixedPage = run [Mount sampleBox,
                    Settle 1 (Fulfilled (Some [sampleFeature 7]))
                      (Fulfilled [sampleStation ''ba'' (Some (Fin 41)) (Some (Fin 20))])]
                 (initial True [])"

section \<open>Properties of the synthetic id\<close>

lemma toInt32_range: "- (2 ^ 31) \<le> toInt32 x \<and> toInt32 x < 2 ^ 31"
proof -
  have "0 \<le> (x + 2 ^ 31) mod (2 ^ 32 :: int)" by simp
  moreover have "(x + 2 ^ 31) mod (2 ^ 32 :: int) < 2 ^ 32" by simp
  ultimately show ?thesis by (simp add: toInt32_def)
qed

lemma toInt32_mod: "toInt32 x mod 2 ^ 32 = x mod 2 ^ 32"
proof -
  have "toInt32 x = (x + 2 ^ 31) mod 2 ^ 32 + (- (2 ^ 31))" by (simp add: toInt32_def)
  then have "toInt32 x mod 2 ^ 32 = ((x + 2 ^ 31) mod 2 ^ 32 + (- (2 ^ 31))) mod 2 ^ 32" by simp
  also have "\<dots> = ((x + 2 ^ 31) + (- (2 ^ 31))) mod 2 ^ 32" by (rule mod_add_left_eq)
  finally show ?thesis by simp
qed

lemma toInt32_cong: "x mod 2 ^ 32 = y mod 2 ^ 32 \<Longrightarrow> toInt32 x = toInt32 y"
proof -
  assume h: "x mod 2 ^ 32 = y mod 2 ^ 32"
  have "(x + 2 ^ 31) mod 2 ^ 32 = (x mod 2 ^ 32 + 2 ^ 31) mod (2 ^ 32 :: int)"
    by (simp add: mod_add_left_eq)
  also have "\<dots> = (y mod 2 ^ 32 + 2 ^ 31) mod (2 ^ 32 :: int)" using h by simp
  also have "\<dots> = (y + 2 ^ 31) mod 2 ^ 32" by (simp add: mod_add_left_eq)
  finally show ?thesis by (simp add: toInt32_def)
qed

text \<open>One step of the reduction is \<open>acc * 31 + code\<close>, wrapped to 32 bits.\<close>

lemma hashStep_rolling: "hashStep acc c = toInt32 (acc * 31 + of_char c)"
proof -
  have a: "toInt32 (toInt32 acc * 2 ^ 5) mod 2 ^ 32 = (acc * 32) mod 2 ^ 32"
  proof -
    have "toInt32 (toInt32 acc * 2 ^ 5) mod 2 ^ 32 = (toInt32 acc * 2 ^ 5) mod 2 ^ 32"
      by (rule toInt32_mod)
    also have "\<dots> = (toInt32 acc mod 2 ^ 32 * 2 ^ 5) mod 2 ^ 32" by (simp add: mod_mult_left_eq)
    also have "\<dots> = (acc mod 2 ^ 32 * 2 ^ 5) mod 2 ^ 32" by (simp only: toInt32_mod)
    also have "\<dots> = (acc * 32) mod 2 ^ 32" by (simp add: mod_mult_left_eq)
    finally show ?thesis .
  qed
  have "(toInt32 (toInt32 acc * 2 ^ 5) - acc + of_char c) mod 2 ^ 32
      = (toInt32 (toInt32 acc * 2 ^ 5) + (of_char c - acc)) mod 2 ^ 32"
    by (simp add: algebra_simps)
  also have "\<dots> = (toInt32 (toInt32 acc * 2 ^ 5) mod 2 ^ 32 + (of_char c - acc)) mod 2 ^ 32"
    by (simp only: mod_add_left_eq)
  also have "\<dots> = ((acc * 32) mod 2 ^ 32 + (of_char c - acc)) mod 2 ^ 32" by (simp only: a)
  also have "\<dots> = (acc * 32 + (of_char c - acc)) mod 2 ^ 32" by (simp only: mod_add_left_eq)
  also have "\<dots> = (acc * 31 + of_char c) mod 2 ^ 32" by (simp add: algebra_simps)
  finally show ?thesis
    unfolding hashStep_def shiftLeft5_def Let_def by (rule toInt32_cong)
qed

lemma idHash_snoc: "idHash (s @ [c]) = toInt32 (idHash s * 31 + of_char c)"
  by (simp add: idHash_def hashStep_rolling)

lemma idHash_range: "- (2 ^ 31) \<le> idHash s \<and> idHash s < 2 ^ 31"
proof (induction s rule: rev_induct)
  case Nil
  show ?case by (simp add: idHash_def)
next
  case (snoc c s)
  show ?case unfolding idHash_snoc by (rule toInt32_range)
qed

lemma convertToOCMFormat_id:
  "convertToOCMFormat station = Some f \<Longrightarrow> f_id f = numericId (cs_id station)"
  by (auto simp: convertToOCMFormat_def split: option.splits)

text \<open>
  C9. The id of a converted first-party record is a function of the record's string id
  alone, \<open>numericId (cs_id station)\<close>: the absolute value of the hash plus 1000000. The hash
  starts at 0, takes each character in order as \<open>acc * 31 + code\<close> wrapped to a signed
  32-bit integer, and so lies in the 32-bit range; the id is at least 1000000.
\<close>

theorem synthetic_id_derivation:
  assumes "convertToOCMFormat station = Some f"
  shows "f_id f = numericId (cs_id station)
       \<and> numericId (cs_id station) = \<bar>idHash (cs_id station)\<bar> + 1000000
       \<and> idHash [] = 0
       \<and> (\<forall>s c. idHash (s @ [c]) = toInt32 (idHash s * 31 + of_char c))
       \<and> - (2 ^ 31) \<le> idHash (cs_id station) \<and> idHash (cs_id station) < 2 ^ 31
       \<and> 1000000 \<le> f_id f"
proof -
  have i: "f_id f = numericId (cs_id station)"
    using assms by (rule convertToOCMFormat_id)
  have n: "numericId (cs_id station) = \<bar>idHash (cs_id station)\<bar> + 1000000"
    by (simp add: numericId_def)
  have z: "idHash [] = 0" by (simp add: idHash_def)
  have r: "\<forall>s c. idHash (s @ [c]) = toInt32 (idHash s * 31 + of_char c)"
    by (simp add: idHash_snoc)
  have b: "1000000 \<le> f_id f" using i n by simp
  from i n z r idHash_range [of "cs_id station"] b show ?thesis by blast
qed

lemma sample_convert_id:
  "map_option f_id (convertToOCMFormat (sampleStation ''ba'' (Some (Fin 41)) (Some (Fin 20))))
     = Some 1003135"
  by (simp add: convertToOCMFormat_def sampleStation_def numericId_def idHash_def hashStep_def
      shiftLeft5_def toInt32_def)

theorem synthetic_id_derivation_witness:
  "\<exists>f. convertToOCMFormat (sampleStation ''ba'' (Some (Fin 41)) (Some (Fin 20))) = Some f
      \<and> f_id f = numericId ''ba'' \<and> f_id f = 1003135 \<and> 1000000 \<le> f_id f
      \<and> numericId ''ab'' = 1003105"
proof -
  obtain f where f: "convertToOCMFormat (sampleStation ''ba'' (Some (Fin 41)) (Some (Fin 20))) = Some f"
    by (simp add: convertToOCMFormat_def sampleStation_def)
  have v: "f_id f = 1003135" using sample_convert_id f by simp
  have ab: "numericId ''ab'' = 1003105"
    by (simp add: numericId_def idHash_def hashStep_def shiftLeft5_def toInt32_def)
  have "cs_id (sampleStation ''ba'' (Some (Fin 41)) (Some (Fin 20))) = ''ba''"
    by (simp add: sampleStation_def)
  with synthetic_id_derivation [OF f] f v ab show ?thesis by simp
qed

section \<open>The invariants hold in every reachable state\<close>

subsection \<open>loadStations\<close>

lemma loadStations_fields:
  "controllers (loadStations m ob s) = abortCurrent s @ [False]"
  "fetchControllerRef (loadStations m ob s) = Some (length (controllers s))"
  "requestTokenRef (loadStations m ob s) = requestTokenRef s + 1"
  "timers (loadStations m ob s) = timers s"
  "moveDebounceRef (loadStations m ob s) = moveDebounceRef s"
  "stations (loadStations m ob s) = stations s"
  "lastNonEmptyStationsRef (loadStations m ob s) = lastNonEmptyStationsRef s"
  "hasLoadedOnceRef (loadStations m ob s) = hasLoadedOnceRef s"
  "lastContextRef (loadStations m ob s) = lastContextRef s"
  "lastUpdated (loadStations m ob s) = lastUpdated s"
  "mapRef (loadStations m ob s) = mapRef s"
  "autoUpdate (loadStations m ob s) = autoUpdate s"
  "pendingSearch (loadStations m ob s) = pendingSearch s"
  "pendingBoundsRef (loadStations m ob s) = pendingBoundsRef s"
  "now (loadStations m ob s) = now s"
  "nextTimer (loadStations m ob s) = nextTimer s"
  "console (loadStations m ob s) = console s"
  "searchTerm (loadStations m ob s) = searchTerm s"
  "loadingStations (loadStations m ob s) = True"
  "error (loadStations m ob s) = None"
  "loadLog (loadStations m ob s) = loadLog s @ [\<lparr> lc_time = now s, lc_mode = m, lc_bounds = ob \<rparr>]"
  by (simp_all add: loadStations_def Let_def abort_def abortCurrent_def split: option.splits)

lemma loadStations_inflight:
  "inflight (loadStations m ob s) = inflight s @ [newLoad m ob s]"
  by (simp add: loadStations_def Let_def abort_def newLoad_def split: option.splits)

lemma length_abortCurrent [simp]: "length (abortCurrent s) = length (controllers s)"
  by (simp add: abortCurrent_def split: option.splits)

lemma abortCurrent_mono: "c < length (controllers s) \<Longrightarrow> controllers s ! c \<Longrightarrow> abortCurrent s ! c"
proof (cases "fetchControllerRef s")
  case None
  assume "controllers s ! c" with None show ?thesis by (simp add: abortCurrent_def)
next
  case (Some i)
  assume "c < length (controllers s)" "controllers s ! c"
  with Some show ?thesis by (cases "i = c") (simp_all add: abortCurrent_def)
qed

lemma abortCurrent_current: "fetchControllerRef s = Some c \<Longrightarrow> c < length (controllers s) \<Longrightarrow> abortCurrent s ! c"
  by (simp add: abortCurrent_def)

lemma loads_inv_loadStations:
  assumes "loads_inv s" and "m = Bounds \<longrightarrow> ob \<noteq> None \<or> mapRef s \<noteq> None"
  shows "loads_inv (loadStations m ob s)"
proof -
  let ?s = "loadStations m ob s"
  have old: "\<And>p. p \<in> set (inflight s) \<Longrightarrow> signal_aborted ?s (pl_controller p) \<and> pl_requestToken p \<le> requestTokenRef s
      \<and> pl_controller p < length (controllers s)"
  proof -
    fix p assume p: "p \<in> set (inflight s)"
    from assms(1) p have c: "pl_controller p < length (controllers s)" and t: "pl_requestToken p \<le> requestTokenRef s"
      and a: "\<not> signal_aborted s (pl_controller p) \<longrightarrow> fetchControllerRef s = Some (pl_controller p)"
      by (auto simp: loads_inv_def)
    have "abortCurrent s ! pl_controller p"
    proof (cases "signal_aborted s (pl_controller p)")
      case True then show ?thesis using c by (simp add: signal_aborted_def abortCurrent_mono)
    next
      case False with a c show ?thesis by (simp add: abortCurrent_current)
    qed
    with c t show "signal_aborted ?s (pl_controller p) \<and> pl_requestToken p \<le> requestTokenRef s
      \<and> pl_controller p < length (controllers s)"
      by (simp add: signal_aborted_def loadStations_fields nth_append)
  qed
  have new: "pl_requestToken (newLoad m ob s) = requestTokenRef s + 1" "pl_controller (newLoad m ob s) = length (controllers s)"
     "pl_nextContext (newLoad m ob s) = nextContextOf (pl_sourceBounds (newLoad m ob s))"
     "pl_mode (newLoad m ob s) = Bounds \<longleftrightarrow> pl_sourceBounds (newLoad m ob s) \<noteq> None"
    using assms(2) by (auto simp: newLoad_def Let_def split: option.splits)
  have fresh: "requestTokenRef s + 1 \<notin> pl_requestToken ` set (inflight s)"
  proof
    assume "requestTokenRef s + 1 \<in> pl_requestToken ` set (inflight s)"
    then obtain p where "p \<in> set (inflight s)" "pl_requestToken p = requestTokenRef s + 1" by auto
    with old [of p] show False by simp
  qed
  have d: "distinct (map pl_requestToken (inflight ?s))"
    using assms(1) fresh by (simp add: loadStations_inflight new loads_inv_def)
  have rest: "\<forall>p \<in> set (inflight s). pl_nextContext p = nextContextOf (pl_sourceBounds p) \<and>
        (pl_mode p = Bounds \<longleftrightarrow> pl_sourceBounds p \<noteq> None)"
    using assms(1) by (auto simp: loads_inv_def)
  have each: "pl_controller p < length (controllers ?s) \<and>
        pl_requestToken p \<le> requestTokenRef ?s \<and>
        (pl_requestToken p \<noteq> requestTokenRef ?s \<longrightarrow> signal_aborted ?s (pl_controller p)) \<and>
        (\<not> signal_aborted ?s (pl_controller p) \<longrightarrow> fetchControllerRef ?s = Some (pl_controller p)) \<and>
        pl_nextContext p = nextContextOf (pl_sourceBounds p) \<and>
        (pl_mode p = Bounds \<longleftrightarrow> pl_sourceBounds p \<noteq> None)" if "p \<in> set (inflight ?s)" for p
  proof (cases "p = newLoad m ob s")
    case True
    then show ?thesis using new by (simp add: loadStations_fields)
  next
    case False
    with that have p: "p \<in> set (inflight s)" by (simp add: loadStations_inflight)
    from old [OF p] rest p show ?thesis by (simp add: loadStations_fields)
  qed
  have f: "\<forall>c. fetchControllerRef ?s = Some c \<longrightarrow> c < length (controllers ?s)"
    by (simp add: loadStations_fields)
  from d f each show ?thesis unfolding loads_inv_def by blast
qed


lemma loads_inv_frame:
  "inflight s' = inflight s \<Longrightarrow> controllers s' = controllers s \<Longrightarrow>
   fetchControllerRef s' = fetchControllerRef s \<Longrightarrow> requestTokenRef s' = requestTokenRef s \<Longrightarrow>
   loads_inv s' = loads_inv s"
  by (simp add: loads_inv_def signal_aborted_def)

lemma timers_inv_frame:
  "timers s' = timers s \<Longrightarrow> moveDebounceRef s' = moveDebounceRef s \<Longrightarrow> timers_inv s' = timers_inv s"
  by (simp add: timers_inv_def)

lemma display_inv_frame:
  "stations s' = stations s \<Longrightarrow> lastNonEmptyStationsRef s' = lastNonEmptyStationsRef s \<Longrightarrow>
   hasLoadedOnceRef s' = hasLoadedOnceRef s \<Longrightarrow> lastContextRef s' = lastContextRef s \<Longrightarrow>
   display_inv s' = display_inv s"
  by (simp add: display_inv_def)

lemma timers_inv_loadStations: "timers_inv (loadStations m ob s) = timers_inv s"
  by (rule timers_inv_frame) (simp_all add: loadStations_fields)

lemma display_inv_loadStations: "display_inv (loadStations m ob s) = display_inv s"
  by (rule display_inv_frame) (simp_all add: loadStations_fields)

lemma page_inv_loadStations:
  "page_inv s \<Longrightarrow> m = Bounds \<longrightarrow> ob \<noteq> None \<Longrightarrow> page_inv (loadStations m ob s)"
  by (simp add: page_inv_def loads_inv_loadStations timers_inv_loadStations display_inv_loadStations)

subsection \<open>Settling a load\<close>

lemma resume_alt:
  "resume p ocm store s =
    (let s0 = s\<lparr>console := console s @ serviceLog store\<rparr>;
         aborted = signal_aborted s (pl_controller p);
         s1 = (case ocm of
                 Fulfilled ocmData \<Rightarrow> applyResult p ocmData (customStationsOf store) s0
               | Rejected err \<Rightarrow>
                   if aborted then s0
                   else s0\<lparr>console := console s0 @ [ConsoleError err],
                           error := Some (case err of Some message \<Rightarrow> message
                                          | None \<Rightarrow> ''Failed to load charging locations'')\<rparr>)
     in if \<not> aborted then s1\<lparr>loadingStations := False\<rparr> else s1)"
  by (cases ocm)
    (simp_all add: resume_def serviceLog_def customStationsOf_def case_prod_beta Let_def
      signal_aborted_def)

lemma serviceLog_simps:
  "serviceLog (Fulfilled docs) = []"
  "serviceLog (Rejected reason) = [ConsoleErrorAbout ''Error fetching charging stations:'' reason]"
  by (simp_all add: serviceLog_def fetchChargingStations_def)

lemma customStationsOf_simps:
  "customStationsOf (Fulfilled docs) = docs"
  "customStationsOf (Rejected reason) = []"
  by (simp_all add: customStationsOf_def fetchChargingStations_def catchEmpty_def)

lemma resume_frame:
  "inflight (resume p ocm store s) = inflight s"
  "controllers (resume p ocm store s) = controllers s"
  "fetchControllerRef (resume p ocm store s) = fetchControllerRef s"
  "requestTokenRef (resume p ocm store s) = requestTokenRef s"
  "timers (resume p ocm store s) = timers s"
  "moveDebounceRef (resume p ocm store s) = moveDebounceRef s"
  "mapRef (resume p ocm store s) = mapRef s"
  "autoUpdate (resume p ocm store s) = autoUpdate s"
  "now (resume p ocm store s) = now s"
  "loadLog (resume p ocm store s) = loadLog s"
  by (simp_all add: resume_alt applyResult_def Let_def split: settled.splits option.splits list.splits)

lemma nextContextOf_wf: "ctx_mode (nextContextOf b) = Bounds \<longleftrightarrow> ctx_bounds (nextContextOf b) \<noteq> None"
  by (simp add: nextContextOf_def split: option.splits)

lemma display_inv_applyResult:
  "display_inv s \<Longrightarrow> pl_nextContext p = nextContextOf (pl_sourceBounds p) \<Longrightarrow>
   display_inv (applyResult p d cs s)"
  using nextContextOf_wf [of "pl_sourceBounds p"]
  by (auto simp: display_inv_def applyResult_def Let_def split: option.splits list.splits)

lemma display_inv_resume:
  assumes "display_inv s" and "pl_nextContext p = nextContextOf (pl_sourceBounds p)"
  shows "display_inv (resume p ocm store s)"
proof -
  let ?s0 = "s\<lparr>console := console s @ serviceLog store\<rparr>"
  have d0: "display_inv ?s0" using assms(1) by (simp add: display_inv_def)
  show ?thesis
  proof (cases ocm)
    case (Fulfilled d)
    from d0 assms(2) have "display_inv (applyResult p d (customStationsOf store) ?s0)"
      by (rule display_inv_applyResult)
    then show ?thesis using Fulfilled by (simp add: resume_alt Let_def display_inv_def)
  next
    case (Rejected e)
    then show ?thesis using d0 by (simp add: resume_alt Let_def display_inv_def)
  qed
qed

lemma loads_inv_remove:
  assumes "loads_inv s" and "p \<in> set (inflight s)"
  shows "loads_inv (s\<lparr>inflight := remove1 p (inflight s)\<rparr>)"
proof -
  have sub: "set (remove1 p (inflight s)) \<subseteq> set (inflight s)" by (rule set_remove1_subset)
  have d: "distinct (map pl_requestToken (remove1 p (inflight s)))"
    using assms(1) by (simp add: loads_inv_def distinct_map inj_on_def)
  show ?thesis using assms(1) sub d
    unfolding loads_inv_def signal_aborted_def by (simp add: subset_iff)
qed

lemma page_inv_settle: "page_inv s \<Longrightarrow> page_inv (settle k ocm store s)"
proof (cases "find (\<lambda>p. pl_requestToken p = k) (inflight s)")
  case None
  assume "page_inv s" with None show ?thesis by (simp add: settle_def)
next
  case (Some p)
  assume inv: "page_inv s"
  let ?s1 = "s\<lparr>inflight := remove1 p (inflight s)\<rparr>"
  from Some have p: "p \<in> set (inflight s)" by (auto simp: find_Some_iff)
  from inv p have ctx: "pl_nextContext p = nextContextOf (pl_sourceBounds p)"
    by (simp add: page_inv_def loads_inv_def)
  have l: "loads_inv ?s1" using inv p by (simp add: page_inv_def loads_inv_remove)
  have t: "timers_inv ?s1" using inv by (simp add: page_inv_def timers_inv_def)
  have d: "display_inv ?s1" using inv by (simp add: page_inv_def display_inv_def)
  have "loads_inv (resume p ocm store ?s1)"
    using l loads_inv_frame [of "resume p ocm store ?s1" ?s1] by (simp add: resume_frame)
  moreover have "timers_inv (resume p ocm store ?s1)"
    using t timers_inv_frame [of "resume p ocm store ?s1" ?s1] by (simp add: resume_frame)
  moreover have "display_inv (resume p ocm store ?s1)"
    using d ctx by (rule display_inv_resume)
  ultimately show ?thesis using Some by (simp add: settle_def page_inv_def)
qed


subsection \<open>Aborting, map moves, timers, buttons\<close>

lemma loads_inv_abort:
  assumes "loads_inv s" and "fetchControllerRef s = Some c"
  shows "loads_inv (abort c s)"
proof -
  have m: "signal_aborted (abort c s) i" if "signal_aborted s i" for i
    using that by (cases "c = i") (auto simp: signal_aborted_def abort_def)
  have "\<not> signal_aborted s i \<longrightarrow> fetchControllerRef s = Some i \<Longrightarrow> i < length (controllers s)
        \<Longrightarrow> signal_aborted (abort c s) i" for i
    using assms(2) m [of i] by (auto simp: signal_aborted_def abort_def)
  then show ?thesis using assms(1) m
    unfolding loads_inv_def by (auto simp: abort_def)
qed

lemma timers_inv_cleared:
  "timers_inv s \<Longrightarrow>
   timers (case moveDebounceRef s of Some i \<Rightarrow> clearTimeout i s | None \<Rightarrow> s) = []"
proof (cases "moveDebounceRef s")
  case None
  assume "timers_inv s"
  with None have "set (timers s) = {}" by (auto simp: timers_inv_def)
  with None show ?thesis by simp
next
  case (Some i)
  assume "timers_inv s"
  with Some have "\<forall>t \<in> set (timers s). tm_id t = i" by (auto simp: timers_inv_def)
  then have "filter (\<lambda>t. tm_id t \<noteq> i) (timers s) = []" by (simp add: filter_empty_conv)
  with Some show ?thesis by (simp add: clearTimeout_def)
qed

lemma handleMapMove_auto:
  assumes "timers_inv s" and "autoUpdate s" and "mapRef s = Some b"
  shows "handleMapMove s =
           s\<lparr>pendingSearch := False, pendingBoundsRef := Some b,
             timers := [\<lparr> tm_id = nextTimer s, tm_due = now s + 450, tm_bounds = b \<rparr>],
             nextTimer := nextTimer s + 1, moveDebounceRef := Some (nextTimer s)\<rparr>"
proof -
  let ?s1 = "s\<lparr>pendingSearch := False, pendingBoundsRef := Some b\<rparr>"
  have "timers_inv ?s1" using assms(1) by (simp add: timers_inv_def)
  then have c: "timers (case moveDebounceRef ?s1 of Some i \<Rightarrow> clearTimeout i ?s1 | None \<Rightarrow> ?s1) = []"
    by (rule timers_inv_cleared)
  show ?thesis
  proof (cases "moveDebounceRef s")
    case None
    with c assms(2,3) show ?thesis by (simp add: handleMapMove_def setTimeout_def Let_def)
  next
    case (Some i)
    with c assms(2,3) show ?thesis by (simp add: handleMapMove_def setTimeout_def Let_def clearTimeout_def)
  qed
qed

lemma handleMapMove_manual:
  "\<not> autoUpdate s \<Longrightarrow> mapRef s = Some b \<Longrightarrow>
   handleMapMove s = s\<lparr>pendingBoundsRef := Some b, pendingSearch := True\<rparr>"
  by (simp add: handleMapMove_def)

lemma page_inv_frame:
  assumes "inflight s' = inflight s" "controllers s' = controllers s"
    "fetchControllerRef s' = fetchControllerRef s" "requestTokenRef s' = requestTokenRef s"
    "timers s' = timers s" "moveDebounceRef s' = moveDebounceRef s"
    "stations s' = stations s" "lastNonEmptyStationsRef s' = lastNonEmptyStationsRef s"
    "hasLoadedOnceRef s' = hasLoadedOnceRef s" "lastContextRef s' = lastContextRef s"
  shows "page_inv s' = page_inv s"
  unfolding page_inv_def
  using loads_inv_frame [OF assms(1-4)] timers_inv_frame [OF assms(5,6)] display_inv_frame [OF assms(7-10)]
  by simp

lemma page_inv_handleMapMove: "page_inv s \<Longrightarrow> page_inv (handleMapMove s)"
proof (cases "mapRef s")
  case None
  assume "page_inv s" with None show ?thesis by (simp add: handleMapMove_def)
next
  case (Some b)
  assume inv: "page_inv s"
  show ?thesis
  proof (cases "autoUpdate s")
    case True
    from inv have t: "timers_inv s" by (simp add: page_inv_def)
    note eq = handleMapMove_auto [OF t True Some]
    have "loads_inv (handleMapMove s) = loads_inv s"
      by (rule loads_inv_frame) (simp_all add: eq)
    moreover have "display_inv (handleMapMove s) = display_inv s"
      by (rule display_inv_frame) (simp_all add: eq)
    moreover have "timers_inv (handleMapMove s)"
      by (simp add: eq timers_inv_def)
    ultimately show ?thesis using inv by (simp add: page_inv_def)
  next
    case False
    note eq = handleMapMove_manual [OF False Some]
    have "page_inv (handleMapMove s) = page_inv s"
      by (rule page_inv_frame) (simp_all add: eq)
    with inv show ?thesis by simp
  qed
qed

lemma page_inv_mapRef: "page_inv (s\<lparr>mapRef := m\<rparr>) = page_inv s"
  by (rule page_inv_frame) simp_all

lemma page_inv_pendingSearch: "page_inv (s\<lparr>pendingSearch := m\<rparr>) = page_inv s"
  by (rule page_inv_frame) simp_all

lemma page_inv_autoUpdate: "page_inv (s\<lparr>autoUpdate := m\<rparr>) = page_inv s"
  by (rule page_inv_frame) simp_all

lemma page_inv_searchTerm: "page_inv (s\<lparr>searchTerm := m\<rparr>) = page_inv s"
  by (rule page_inv_frame) simp_all

lemma page_inv_now: "page_inv (s\<lparr>now := m\<rparr>) = page_inv s"
  by (rule page_inv_frame) simp_all

lemma timers_inv_filter:
  "timers_inv s \<Longrightarrow> timers_inv (s\<lparr>timers := filter P (timers s)\<rparr>)"
proof -
  assume t: "timers_inv s"
  have "length (filter P (timers s)) \<le> length (timers s)" by simp
  with t have "length (filter P (timers s)) \<le> 1" unfolding timers_inv_def by linarith
  with t show ?thesis by (simp add: timers_inv_def)
qed

lemma page_inv_filter_timers:
  assumes "page_inv s" shows "page_inv (s\<lparr>timers := filter P (timers s)\<rparr>)"
proof -
  let ?s1 = "s\<lparr>timers := filter P (timers s)\<rparr>"
  have "loads_inv ?s1 = loads_inv s" by (rule loads_inv_frame) simp_all
  moreover have "display_inv ?s1 = display_inv s" by (rule display_inv_frame) simp_all
  moreover have "timers_inv ?s1" using assms by (simp add: page_inv_def timers_inv_filter)
  ultimately show ?thesis using assms by (simp add: page_inv_def)
qed

lemma page_inv_fireTimer: "page_inv s \<Longrightarrow> page_inv (fireTimer t s)"
proof -
  assume inv: "page_inv s"
  let ?s1 = "s\<lparr>timers := filter (\<lambda>u. tm_id u \<noteq> tm_id t) (timers s)\<rparr>"
  have "page_inv (?s1\<lparr>now := max (now s) (tm_due t)\<rparr>)"
    using inv by (simp only: page_inv_now page_inv_filter_timers)
  then have "page_inv (loadStations Bounds (Some (tm_bounds t)) (?s1\<lparr>now := max (now s) (tm_due t)\<rparr>))"
    by (rule page_inv_loadStations) simp
  then show ?thesis by (simp add: fireTimer_def)
qed

lemma page_inv_fold_fireTimer: "page_inv s \<Longrightarrow> page_inv (fold fireTimer ts s)"
  by (induction ts arbitrary: s) (simp_all add: page_inv_fireTimer)

lemma page_inv_advance: "page_inv s \<Longrightarrow> page_inv (advance d s)"
  by (simp add: advance_def Let_def page_inv_now page_inv_fold_fireTimer)

lemma page_inv_handleSearchArea: "page_inv s \<Longrightarrow> page_inv (handleSearchArea s)"
  by (auto simp: handleSearchArea_def page_inv_pendingSearch page_inv_loadStations split: option.splits)

lemma page_inv_handleRetry: "page_inv s \<Longrightarrow> page_inv (handleRetry s)"
  by (auto simp: handleRetry_def Let_def page_inv_loadStations split: option.splits)

lemma page_inv_autoUpdateEffect: "page_inv s \<Longrightarrow> page_inv (autoUpdateEffect s)"
  by (auto simp: autoUpdateEffect_def page_inv_pendingSearch page_inv_loadStations split: option.splits)

lemma page_inv_handleToggleAutoUpdate: "page_inv s \<Longrightarrow> page_inv (handleToggleAutoUpdate s)"
  by (simp add: handleToggleAutoUpdate_def page_inv_autoUpdateEffect page_inv_autoUpdate)

lemma page_inv_mount: "page_inv s \<Longrightarrow> page_inv (mount b s)"
proof -
  assume "page_inv s"
  then have "page_inv (autoUpdateEffect (loadStations Country None s))"
    by (simp add: page_inv_autoUpdateEffect page_inv_loadStations)
  then show ?thesis by (simp add: mount_def Let_def page_inv_mapRef split: option.splits)
qed

lemma page_inv_abortCurrent:
  assumes "page_inv s"
  shows "page_inv (case fetchControllerRef s of Some c \<Rightarrow> abort c s | None \<Rightarrow> s)"
proof (cases "fetchControllerRef s")
  case None
  with assms show ?thesis by simp
next
  case (Some c)
  have "loads_inv (abort c s)" using assms Some by (simp add: page_inv_def loads_inv_abort)
  moreover have "timers_inv (abort c s) = timers_inv s"
    by (rule timers_inv_frame) (simp_all add: abort_def)
  moreover have "display_inv (abort c s) = display_inv s"
    by (rule display_inv_frame) (simp_all add: abort_def)
  ultimately show ?thesis using assms Some by (simp add: page_inv_def)
qed

lemma page_inv_clearCurrent:
  assumes "page_inv s"
  shows "page_inv (case moveDebounceRef s of Some i \<Rightarrow> clearTimeout i s | None \<Rightarrow> s)"
proof (cases "moveDebounceRef s")
  case None
  with assms show ?thesis by simp
next
  case (Some i)
  with page_inv_filter_timers [OF assms] show ?thesis by (simp add: clearTimeout_def)
qed

lemma page_inv_unmount: "page_inv s \<Longrightarrow> page_inv (unmount s)"
  by (simp add: unmount_def Let_def page_inv_mapRef page_inv_clearCurrent page_inv_abortCurrent)

lemma page_inv_step: "page_inv s \<Longrightarrow> page_inv (step e s)"
  by (cases e)
    (auto simp: step.simps page_inv_mount page_inv_handleMapMove page_inv_mapRef page_inv_advance page_inv_settle
      page_inv_handleSearchArea page_inv_handleRetry page_inv_handleToggleAutoUpdate
      page_inv_searchTerm page_inv_unmount split: option.splits)

lemma page_inv_run: "page_inv s \<Longrightarrow> page_inv (run evs s)"
  unfolding run_def by (induction evs arbitrary: s) (simp_all add: page_inv_step)

lemma page_inv_initial: "page_inv (initial auto q)"
  by (simp add: page_inv_def loads_inv_def timers_inv_def display_inv_def initial_def)

lemma reachable_page_inv: "reachable s \<Longrightarrow> page_inv s"
  by (auto simp: reachable_def page_inv_run page_inv_initial)

section \<open>Stale and cancelled loads\<close>

lemma find_token: "find (\<lambda>p. pl_requestToken p = k) xs = Some p \<Longrightarrow> pl_requestToken p = k \<and> p \<in> set xs"
  by (auto simp: find_Some_iff)

lemma find_distinct_token:
  "distinct (map pl_requestToken xs) \<Longrightarrow> p \<in> set xs \<Longrightarrow>
   find (\<lambda>q. pl_requestToken q = pl_requestToken p) xs = Some p"
  by (induction xs) auto

lemma settle_cancelled:
  assumes "find (\<lambda>q. pl_requestToken q = k) (inflight s) = Some p"
    and "signal_aborted s (pl_controller p)" and "k \<noteq> requestTokenRef s"
  shows "settle k ocm store s
       = s\<lparr>inflight := remove1 p (inflight s), console := console s @ serviceLog store\<rparr>"
proof -
  let ?s1 = "s\<lparr>inflight := remove1 p (inflight s)\<rparr>"
  have k: "pl_requestToken p = k" using assms(1) by (rule find_token [THEN conjunct1])
  have a: "signal_aborted ?s1 (pl_controller p)" using assms(2) by (simp add: signal_aborted_def)
  have t: "pl_requestToken p \<noteq> requestTokenRef ?s1" using assms(3) k by simp
  have "resume p ocm store ?s1 = ?s1\<lparr>console := console ?s1 @ serviceLog store\<rparr>"
    using a t by (cases ocm) (simp_all add: resume_alt applyResult_def Let_def)
  then show ?thesis using assms(1) by (simp add: settle_def)
qed

lemma find_append_Some: "find P xs = Some p \<Longrightarrow> find P (xs @ ys) = Some p"
  by (induction xs) (auto split: if_splits)

lemma distinct_const_length:
  assumes "distinct (map f xs)" and "\<forall>x \<in> set xs. f x = c"
  shows "length xs \<le> 1"
proof (cases xs)
  case Nil
  then show ?thesis by simp
next
  case (Cons a ys)
  show ?thesis
  proof (cases ys)
    case Nil
    with Cons show ?thesis by simp
  next
    case (Cons b zs)
    with \<open>xs = a # ys\<close> assms(2) have "f a = c" "f b = c" by simp_all
    moreover from Cons \<open>xs = a # ys\<close> assms(1) have "f a \<noteq> f b" by simp
    ultimately show ?thesis by simp
  qed
qed

lemma live_at_most_one:
  assumes "loads_inv s"
  shows "length (filter (\<lambda>p. \<not> signal_aborted s (pl_controller p)) (inflight s)) \<le> 1"
proof -
  let ?live = "filter (\<lambda>p. \<not> signal_aborted s (pl_controller p)) (inflight s)"
  have d: "distinct (map pl_requestToken ?live)"
    using assms by (simp add: loads_inv_def distinct_map_filter)
  have "\<forall>p \<in> set ?live. pl_requestToken p = requestTokenRef s"
    using assms by (auto simp: loads_inv_def)
  with d show ?thesis by (rule distinct_const_length)
qed

subsection \<open>Concrete pages\<close>

lemma run_Nil: "run [] s = s"
  by (simp add: run_def)

lemma reachable_run: "reachable (run evs (initial auto q))"
  unfolding reachable_def by blast

lemma run_Cons: "run (e # evs) s = run evs (step e s)"
  by (simp add: run_def)

lemmas run_simps = run_Cons run_Nil step.simps


lemma run_append: "run (xs @ ys) s = run ys (run xs s)"
  by (simp add: run_def)

lemma mountedPage_eq:
  "mountedPage auto = (loadStations Country None (initial auto []))\<lparr>mapRef := Some sampleBox\<rparr>"
  by (simp add: mountedPage_def run_simps mount_def Let_def autoUpdateEffect_def
      loadStations_fields initial_def)

lemma mountedPage_fields:
  "requestTokenRef (mountedPage auto) = 1"
  "inflight (mountedPage auto) = [newLoad Country None (initial auto [])]"
  "lastContextRef (mountedPage auto) = \<lparr> ctx_mode = Country, ctx_bounds = None \<rparr>"
  "stations (mountedPage auto) = []"
  "controllers (mountedPage auto) = [False]"
  "fetchControllerRef (mountedPage auto) = Some 0"
  "autoUpdate (mountedPage auto) = auto"
  "mapRef (mountedPage auto) = Some sampleBox"
  "hasLoadedOnceRef (mountedPage auto) = False"
  "lastNonEmptyStationsRef (mountedPage auto) = None"
  "pendingBoundsRef (mountedPage auto) = None"
  "timers (mountedPage auto) = []"
  "moveDebounceRef (mountedPage auto) = None"
  "now (mountedPage auto) = 0"
  "nextTimer (mountedPage auto) = 1"
  "console (mountedPage auto) = []"
  "loadLog (mountedPage auto) = [\<lparr> lc_time = 0, lc_mode = Country, lc_bounds = None \<rparr>]"
  by (simp_all add: mountedPage_eq loadStations_fields loadStations_inflight initial_def abortCurrent_def)

lemma toFixed6_ex:
  "toFixed6 (201234567/10000000) = 20123457/1000000"
  "toFixed6 (413/10) = 413/10" "toFixed6 41 = 41" "toFixed6 (197/10) = 197/10"
  "toFixed6 (- (1/128)) = - (7813/1000000)"
  unfolding toFixed6_def by code_simp+

lemma mountedPage_more:
  "error (mountedPage auto) = None"
  "loadingStations (mountedPage auto) = True"
  "lastUpdated (mountedPage auto) = None"
  "pendingSearch (mountedPage auto) = False"
  "searchTerm (mountedPage auto) = []"
  by (simp_all add: mountedPage_eq loadStations_fields initial_def)


lemma loadedPage_eq: "loadedPage = settle 1 (Fulfilled (Some [sampleFeature 7])) (Fulfilled []) (mountedPage False)"
  by (simp add: loadedPage_def mountedPage_def run_simps)

lemma newLoad_initial:
  "newLoad Country None (initial auto q) =
    \<lparr> pl_mode = Country, pl_requestToken = 1, pl_controller = 0, pl_sourceBounds = None,
      pl_nextContext = \<lparr> ctx_mode = Country, ctx_bounds = None \<rparr>,
      pl_requests = [FetchStations Country None 0, FetchChargingStations] \<rparr>"
  by (simp add: newLoad_def initial_def nextContextOf_def)

lemma loadedPage_fields:
  "requestTokenRef loadedPage = 1"
  "inflight loadedPage = []"
  "stations loadedPage = [sampleFeature 7]"
  "lastNonEmptyStationsRef loadedPage = Some [sampleFeature 7]"
  "hasLoadedOnceRef loadedPage"
  "lastContextRef loadedPage = \<lparr> ctx_mode = Country, ctx_bounds = None \<rparr>"
  "lastUpdated loadedPage = Some 0"
  "loadingStations loadedPage = False"
  "error loadedPage = None"
  "controllers loadedPage = [False]"
  "fetchControllerRef loadedPage = Some 0"
  "autoUpdate loadedPage = False"
  "mapRef loadedPage = Some sampleBox"
  "pendingBoundsRef loadedPage = None"
  "timers loadedPage = []"
  "moveDebounceRef loadedPage = None"
  "now loadedPage = 0"
  "console loadedPage = []"
  "loadLog loadedPage = [\<lparr> lc_time = 0, lc_mode = Country, lc_bounds = None \<rparr>]"
  by (simp_all add: loadedPage_eq settle_def mountedPage_fields newLoad_initial resume_alt
      applyResult_def Let_def signal_aborted_def serviceLog_simps customStationsOf_simps mountedPage_more
      mergeStationsWithOCM_def)


lemma searchingPage_eq:
  "searchingPage = loadStations Bounds (Some viewBox)
      (loadedPage\<lparr>mapRef := Some viewBox, pendingBoundsRef := Some viewBox, pendingSearch := False\<rparr>)"
  by (simp add: searchingPage_def run_simps loadedPage_fields handleMapMove_def
      handleSearchArea_def)

lemma searchingPage_fields:
  "requestTokenRef searchingPage = 2"
  "inflight searchingPage =
     [\<lparr> pl_mode = Bounds, pl_requestToken = 2, pl_controller = 1, pl_sourceBounds = Some viewBox,
        pl_nextContext = \<lparr> ctx_mode = Bounds,
                           ctx_bounds = Some (413/10, 197/10, 41, 20123457/1000000) \<rparr>,
        pl_requests = [FetchStations Bounds (Some (413/10, 197/10, 41, 201234567/10000000)) 1,
                       FetchChargingStations] \<rparr>]"
  "stations searchingPage = [sampleFeature 7]"
  "lastNonEmptyStationsRef searchingPage = Some [sampleFeature 7]"
  "hasLoadedOnceRef searchingPage"
  "lastContextRef searchingPage = \<lparr> ctx_mode = Country, ctx_bounds = None \<rparr>"
  "now searchingPage = 0"
  "console searchingPage = []"
  "error searchingPage = None"
  "loadLog searchingPage = [\<lparr> lc_time = 0, lc_mode = Country, lc_bounds = None \<rparr>,
                            \<lparr> lc_time = 0, lc_mode = Bounds, lc_bounds = Some viewBox \<rparr>]"
  by (simp_all add: searchingPage_eq loadStations_fields loadStations_inflight loadedPage_fields
      newLoad_def Let_def nextContextOf_def getBoundingBoxFromBounds_def viewBox_def box_def toFixed6_ex)

lemma reachable_searchingPage: "reachable searchingPage"
proof -
  have e: "searchingPage = run ([Mount sampleBox, Settle 1 (Fulfilled (Some [sampleFeature 7])) (Fulfilled [])]
          @ [MapMove viewBox, SearchArea]) (initial False [])"
    unfolding searchingPage_def loadedPage_def by (simp only: run_append)
  show ?thesis unfolding e by (rule reachable_run)
qed

lemma searchingPage_find:
  "find (\<lambda>q. pl_requestToken q = requestTokenRef searchingPage) (inflight searchingPage)
     = Some (hd (inflight searchingPage))"
  by (simp add: searchingPage_fields)

subsection \<open>Settling a load that is not the current one\<close>

lemma applyResult_inflight:
  "applyResult p d cs (s\<lparr>inflight := X\<rparr>) = (applyResult p d cs s)\<lparr>inflight := X\<rparr>"
  "applyResult p d cs (s\<lparr>inflight := X, console := c\<rparr>)
     = (applyResult p d cs (s\<lparr>console := c\<rparr>))\<lparr>inflight := X\<rparr>"
  by (simp_all add: applyResult_def Let_def split: option.splits list.splits)

lemma resume_inflight:
  "resume p ocm store (s\<lparr>inflight := X\<rparr>) = (resume p ocm store s)\<lparr>inflight := X\<rparr>"
  by (cases ocm) (simp_all add: resume_alt Let_def signal_aborted_def applyResult_inflight)

text \<open>The lines a settlement adds to the console do not depend on what is there.\<close>

lemma applyResult_console:
  "applyResult p d cs (s\<lparr>console := c\<rparr>)
     = (applyResult p d cs s)\<lparr>console := c @ drop (length (console s)) (console (applyResult p d cs s))\<rparr>"
  by (simp add: applyResult_def Let_def split: option.splits list.splits)

lemma applyResult_console_grows:
  "console (applyResult p d cs s)
     = console s @ drop (length (console s)) (console (applyResult p d cs s))"
  by (simp add: applyResult_def Let_def split: option.splits list.splits)

lemma resume_console:
  "resume p ocm store (s\<lparr>console := c\<rparr>)
     = (resume p ocm store s)\<lparr>console := c @ drop (length (console s)) (console (resume p ocm store s))\<rparr>"
proof (cases ocm)
  case (Fulfilled d)
  let ?a = "applyResult p d (customStationsOf store) (s\<lparr>console := console s @ serviceLog store\<rparr>)"
  have g: "console ?a = (console s @ serviceLog store)
             @ drop (length (console s @ serviceLog store)) (console ?a)"
    using applyResult_console_grows [of p d "customStationsOf store"
        "s\<lparr>console := console s @ serviceLog store\<rparr>"] by simp
  have e: "applyResult p d (customStationsOf store) (s\<lparr>console := c @ serviceLog store\<rparr>)
         = ?a\<lparr>console := (c @ serviceLog store)
               @ drop (length (console s @ serviceLog store)) (console ?a)\<rparr>"
    using applyResult_console [of p d "customStationsOf store" "c @ serviceLog store"
        "s\<lparr>console := console s @ serviceLog store\<rparr>"] by simp
  have d: "drop (length (console s)) (console ?a)
         = serviceLog store @ drop (length (console s @ serviceLog store)) (console ?a)"
    by (subst g) simp
  show ?thesis using Fulfilled e d by (simp add: resume_alt Let_def signal_aborted_def)
next
  case (Rejected err)
  then show ?thesis by (simp add: resume_alt Let_def signal_aborted_def)
qed

lemma resume_console_grows:
  "console (resume p ocm store s)
     = console s @ drop (length (console s)) (console (resume p ocm store s))"
proof (cases ocm)
  case (Fulfilled d)
  let ?a = "applyResult p d (customStationsOf store) (s\<lparr>console := console s @ serviceLog store\<rparr>)"
  have g: "console ?a = (console s @ serviceLog store)
             @ drop (length (console s @ serviceLog store)) (console ?a)"
    using applyResult_console_grows [of p d "customStationsOf store"
        "s\<lparr>console := console s @ serviceLog store\<rparr>"] by simp
  have "console ?a = console s @ drop (length (console s)) (console ?a)"
    by (subst g, subst (2) g) simp
  then show ?thesis using Fulfilled by (simp add: resume_alt Let_def)
next
  case (Rejected err)
  then show ?thesis by (simp add: resume_alt Let_def)
qed

lemma settle_console:
  "settle k ocm store (s\<lparr>console := c\<rparr>)
     = (settle k ocm store s)\<lparr>console := c @ drop (length (console s)) (console (settle k ocm store s))\<rparr>"
proof (cases "find (\<lambda>q. pl_requestToken q = k) (inflight s)")
  case None
  then show ?thesis by (simp add: settle_def)
next
  case (Some p)
  have sw: "s\<lparr>console := c, inflight := X\<rparr> = s\<lparr>inflight := X, console := c\<rparr>" for X
    by simp
  have "resume p ocm store (s\<lparr>console := c, inflight := remove1 p (inflight s)\<rparr>)
      = (resume p ocm store (s\<lparr>inflight := remove1 p (inflight s)\<rparr>))
          \<lparr>console := c @ drop (length (console s))
              (console (resume p ocm store (s\<lparr>inflight := remove1 p (inflight s)\<rparr>)))\<rparr>"
    unfolding sw
    using resume_console [of p ocm store c "s\<lparr>inflight := remove1 p (inflight s)\<rparr>"] by simp
  then show ?thesis using Some by (simp add: settle_def)
qed

lemma settle_console_grows:
  "console (settle k ocm store s)
     = console s @ drop (length (console s)) (console (settle k ocm store s))"
proof (cases "find (\<lambda>q. pl_requestToken q = k) (inflight s)")
  case None
  then show ?thesis by (simp add: settle_def)
next
  case (Some p)
  from resume_console_grows [of p ocm store "s\<lparr>inflight := remove1 p (inflight s)\<rparr>"] Some
  show ?thesis by (simp add: settle_def)
qed

lemma find_remove1_other:
  "\<not> P p \<Longrightarrow> find P (remove1 p xs) = find P xs"
  by (induction xs) auto

lemma find_remove1_same:
  "distinct (map pl_requestToken xs) \<Longrightarrow> p \<in> set xs \<Longrightarrow>
   find (\<lambda>q. pl_requestToken q = pl_requestToken p) (remove1 p xs) = None"
proof -
  assume d: "distinct (map pl_requestToken xs)" and p: "p \<in> set xs"
  then have dx: "distinct xs" and inj: "inj_on pl_requestToken (set xs)"
    by (simp_all add: distinct_map)
  have "\<forall>x \<in> set (remove1 p xs). pl_requestToken x \<noteq> pl_requestToken p"
    using dx inj p by (auto simp: set_remove1_eq dest: inj_onD)
  then show ?thesis by (simp add: find_None_iff)
qed

lemma settle_inflight_other:
  assumes "pl_requestToken p \<noteq> k"
  shows "settle k ocm store (s\<lparr>inflight := remove1 p (inflight s)\<rparr>)
       = (settle k ocm store s)\<lparr>inflight := remove1 p (inflight (settle k ocm store s))\<rparr>"
proof -
  have f: "find (\<lambda>q. pl_requestToken q = k) (remove1 p (inflight s))
         = find (\<lambda>q. pl_requestToken q = k) (inflight s)"
    using assms by (intro find_remove1_other) simp
  show ?thesis
  proof (cases "find (\<lambda>q. pl_requestToken q = k) (inflight s)")
    case None
    with f show ?thesis by (simp add: settle_def)
  next
    case (Some p')
    with f show ?thesis
      by (simp add: settle_def resume_inflight resume_frame remove1_commute)
  qed
qed

lemma reachable_step: "reachable s \<Longrightarrow> reachable (step e s)"
proof -
  assume "reachable s"
  then obtain auto q evs where "s = run evs (initial auto q)" by (auto simp: reachable_def)
  then have "step e s = run (evs @ [e]) (initial auto q)" by (simp add: run_append run_Cons run_Nil)
  then show ?thesis by (simp only: reachable_run)
qed

lemma reachable_settle: "reachable s \<Longrightarrow> reachable (settle k ocm store s)"
  using reachable_step [of s "Settle k ocm store"] by (simp add: step.simps)

lemma settle_stale_reachable:
  assumes "reachable s" and "k \<noteq> requestTokenRef s"
  shows "settle k ocm store s =
     (case find (\<lambda>q. pl_requestToken q = k) (inflight s) of
        None \<Rightarrow> s
      | Some p \<Rightarrow> s\<lparr>inflight := remove1 p (inflight s),
                     console := console s @ serviceLog store\<rparr>)"
proof (cases "find (\<lambda>q. pl_requestToken q = k) (inflight s)")
  case None
  then show ?thesis by (simp add: settle_def)
next
  case (Some p)
  from assms(1) have inv: "loads_inv s" using reachable_page_inv by (simp add: page_inv_def)
  from find_token [OF Some] have k: "pl_requestToken p = k" and p: "p \<in> set (inflight s)" by simp_all
  from inv p k assms(2) have "signal_aborted s (pl_controller p)" by (auto simp: loads_inv_def)
  from settle_cancelled [OF Some this assms(2)] Some show ?thesis by simp
qed

text \<open>Settling a load that is not the current one, before or after settling any other
  load, gives pages that differ at most in the order of their console lines.\<close>

lemma settle_stale_commute:
  assumes "reachable s" and "k \<noteq> requestTokenRef s"
  shows "(settle k' ocm' store' (settle k ocm store s))\<lparr>console := c\<rparr>
           = (settle k ocm store (settle k' ocm' store' s))\<lparr>console := c\<rparr>
       \<and> (k' \<noteq> k \<longrightarrow>
            mset (console (settle k' ocm' store' (settle k ocm store s)))
              = mset (console (settle k ocm store (settle k' ocm' store' s))))
       \<and> (k' \<noteq> k \<longrightarrow> serviceLog store = [] \<longrightarrow>
            settle k' ocm' store' (settle k ocm store s)
              = settle k ocm store (settle k' ocm' store' s))"
proof (cases "find (\<lambda>q. pl_requestToken q = k) (inflight s)")
  case None
  have e1: "settle k a b s = s" for a b using None by (simp add: settle_def)
  have "find (\<lambda>q. pl_requestToken q = k) (inflight (settle k' ocm' store' s)) = None"
  proof (cases "find (\<lambda>q. pl_requestToken q = k') (inflight s)")
    case None
    with \<open>find (\<lambda>q. pl_requestToken q = k) (inflight s) = None\<close> show ?thesis by (simp add: settle_def)
  next
    case (Some p')
    have "set (remove1 p' (inflight s)) \<subseteq> set (inflight s)" by (rule set_remove1_subset)
    with None have "find (\<lambda>q. pl_requestToken q = k) (remove1 p' (inflight s)) = None"
      by (auto simp: find_None_iff)
    with Some show ?thesis by (simp add: settle_def resume_frame)
  qed
  then have e2: "settle k a b (settle k' ocm' store' s) = settle k' ocm' store' s" for a b
    by (simp add: settle_def)
  show ?thesis by (simp add: e1 e2)
next
  case (Some p)
  from assms(1) have inv: "loads_inv s" using reachable_page_inv by (simp add: page_inv_def)
  from find_token [OF Some] have kp: "pl_requestToken p = k" and pin: "p \<in> set (inflight s)" by simp_all
  have s1: "settle k a b s = s\<lparr>inflight := remove1 p (inflight s), console := console s @ serviceLog b\<rparr>"
    for a b using settle_stale_reachable [OF assms, of a b] Some by simp
  show ?thesis
  proof (cases "k' = k")
    case True
    have r1: "reachable (settle k a b s)" for a b using assms(1) by (rule reachable_settle)
    have t1: "k \<noteq> requestTokenRef (settle k a b s)" for a b using assms(2) by (simp add: s1)
    have n: "find (\<lambda>q. pl_requestToken q = k) (inflight (settle k a b s)) = None" for a b
      using find_remove1_same [OF _ pin] inv kp by (simp add: s1 loads_inv_def)
    have "settle k a' b' (settle k a b s) = settle k a b s" for a b a' b'
      using settle_stale_reachable [OF r1 [of a b] t1 [of a b], of a' b'] n [of a b] by simp
    then show ?thesis using True by (simp add: s1)
  next
    case False
    let ?s' = "settle k' ocm' store' s"
    let ?added = "drop (length (console s)) (console ?s')"
    have r': "reachable ?s'" using assms(1) by (rule reachable_settle)
    have t': "k \<noteq> requestTokenRef ?s'" using assms(2)
      by (simp add: settle_def resume_frame split: option.splits)
    have f': "find (\<lambda>q. pl_requestToken q = k) (inflight ?s') = Some p"
    proof (cases "find (\<lambda>q. pl_requestToken q = k') (inflight s)")
      case None
      with Some show ?thesis by (simp add: settle_def)
    next
      case (Some p')
      from find_token [OF Some] False have "\<not> (\<lambda>q. pl_requestToken q = k) p'" by simp
      from find_remove1_other [of "\<lambda>q. pl_requestToken q = k" p' "inflight s", OF this]
        \<open>find (\<lambda>q. pl_requestToken q = k) (inflight s) = Some p\<close> Some
      show ?thesis by (simp add: settle_def resume_frame)
    qed
    have g: "console ?s' = console s @ ?added" by (rule settle_console_grows)
    have b: "settle k ocm store ?s'
           = ?s'\<lparr>inflight := remove1 p (inflight ?s'), console := console ?s' @ serviceLog store\<rparr>"
      using settle_stale_reachable [OF r' t', of ocm store] f' by simp
    from kp False have ne: "pl_requestToken p \<noteq> k'" by simp
    have "settle k' ocm' store' (settle k ocm store s)
        = settle k' ocm' store' ((s\<lparr>inflight := remove1 p (inflight s)\<rparr>)
            \<lparr>console := console s @ serviceLog store\<rparr>)"
      by (simp add: s1)
    also have "\<dots> = (settle k' ocm' store' (s\<lparr>inflight := remove1 p (inflight s)\<rparr>))
            \<lparr>console := (console s @ serviceLog store)
               @ drop (length (console (s\<lparr>inflight := remove1 p (inflight s)\<rparr>)))
                   (console (settle k' ocm' store' (s\<lparr>inflight := remove1 p (inflight s)\<rparr>)))\<rparr>"
      by (rule settle_console)
    also have "\<dots> = ?s'\<lparr>inflight := remove1 p (inflight ?s'),
                          console := console s @ serviceLog store @ ?added\<rparr>"
      by (simp add: settle_inflight_other [OF ne])
    finally have a: "settle k' ocm' store' (settle k ocm store s)
        = ?s'\<lparr>inflight := remove1 p (inflight ?s'),
              console := console s @ serviceLog store @ ?added\<rparr>" .
    have m: "mset (console s @ serviceLog store @ ?added) = mset (console ?s' @ serviceLog store)"
      by (subst (2) g) simp
    have "serviceLog store = [] \<longrightarrow> console s @ serviceLog store @ ?added = console ?s' @ serviceLog store"
      using g by simp
    with m show ?thesis by (simp add: a b)
  qed
qed

subsection \<open>Generation tokens\<close>

text \<open>
  C1. When the load with request token \<open>k\<close> settles, in whatever way, while \<open>k\<close> is not
  the current token, the displayed stations, the last non-empty list, the query context,
  the last-updated time and the has-loaded-once flag are what they were. The page \<open>s\<close>
  is arbitrary, so this holds wherever an interleaving of loads and settlements leads.
  Every call of \<open>loadStations\<close> raises the current token by one, and in a reachable page
  no suspended load has a token above it: the current token is the highest. In a
  reachable page the order of settlement does not matter: settling the load \<open>k\<close> before
  or after any other load \<open>k'\<close> gives the same page, but for the order of the lines on
  the console when the store's query of load \<open>k\<close> has failed and the service has logged
  it.
\<close>

theorem stale_response_discarded:
  assumes "k \<noteq> requestTokenRef s"
  shows "stations (settle k ocm store s) = stations s
       \<and> lastNonEmptyStationsRef (settle k ocm store s) = lastNonEmptyStationsRef s
       \<and> lastContextRef (settle k ocm store s) = lastContextRef s
       \<and> lastUpdated (settle k ocm store s) = lastUpdated s
       \<and> hasLoadedOnceRef (settle k ocm store s) = hasLoadedOnceRef s
       \<and> requestTokenRef (loadStations m ob s) = requestTokenRef s + 1
       \<and> (reachable s \<longrightarrow> (\<forall>p \<in> set (inflight s). pl_requestToken p \<le> requestTokenRef s))
       \<and> (reachable s \<longrightarrow>
            (settle k' ocm' store' (settle k ocm store s))\<lparr>console := c\<rparr>
              = (settle k ocm store (settle k' ocm' store' s))\<lparr>console := c\<rparr>
          \<and> (k' \<noteq> k \<longrightarrow>
               mset (console (settle k' ocm' store' (settle k ocm store s)))
                 = mset (console (settle k ocm store (settle k' ocm' store' s))))
          \<and> (k' \<noteq> k \<longrightarrow> serviceLog store = [] \<longrightarrow>
               settle k' ocm' store' (settle k ocm store s)
                 = settle k ocm store (settle k' ocm' store' s)))"
proof -
  have five: "stations (settle k ocm store s) = stations s
       \<and> lastNonEmptyStationsRef (settle k ocm store s) = lastNonEmptyStationsRef s
       \<and> lastContextRef (settle k ocm store s) = lastContextRef s
       \<and> lastUpdated (settle k ocm store s) = lastUpdated s
       \<and> hasLoadedOnceRef (settle k ocm store s) = hasLoadedOnceRef s"
    using assms
    by (auto simp: settle_def resume_alt applyResult_def Let_def dest!: find_token
        split: option.splits settled.splits)
  have top: "reachable s \<longrightarrow> (\<forall>p \<in> set (inflight s). pl_requestToken p \<le> requestTokenRef s)"
    using reachable_page_inv [of s] by (simp add: page_inv_def loads_inv_def)
  have order: "reachable s \<longrightarrow>
            (settle k' ocm' store' (settle k ocm store s))\<lparr>console := c\<rparr>
              = (settle k ocm store (settle k' ocm' store' s))\<lparr>console := c\<rparr>
          \<and> (k' \<noteq> k \<longrightarrow>
               mset (console (settle k' ocm' store' (settle k ocm store s)))
                 = mset (console (settle k ocm store (settle k' ocm' store' s))))
          \<and> (k' \<noteq> k \<longrightarrow> serviceLog store = [] \<longrightarrow>
               settle k' ocm' store' (settle k ocm store s)
                 = settle k ocm store (settle k' ocm' store' s))"
    using settle_stale_commute [of s k c k' ocm' store' ocm store] assms by blast
  have inc: "requestTokenRef (loadStations m ob s) = requestTokenRef s + 1"
    by (simp add: loadStations_fields)
  from five inc top order show ?thesis by blast
qed

lemma retriedPage_eq:
  "run [Mount sampleBox, Retry] (initial True []) = loadStations Country None (mountedPage True)"
  by (simp add: mountedPage_def run_simps handleRetry_def Let_def mount_def autoUpdateEffect_def
      loadStations_fields initial_def)

theorem stale_response_discarded_witness:
  "reachable (loadStations Country None (mountedPage True))
   \<and> map pl_requestToken (inflight (loadStations Country None (mountedPage True))) = [1, 2]
   \<and> requestTokenRef (loadStations Country None (mountedPage True)) = 2
   \<and> stations (settle 1 (Fulfilled (Some [sampleFeature 7])) (Fulfilled [])
        (loadStations Country None (mountedPage True))) = []
   \<and> hasLoadedOnceRef (settle 1 (Fulfilled (Some [sampleFeature 7])) (Fulfilled [])
        (loadStations Country None (mountedPage True))) = False
   \<and> settle 2 (Fulfilled (Some [])) (Fulfilled [])
        (settle 1 (Fulfilled (Some [sampleFeature 7])) (Fulfilled [])
           (loadStations Country None (mountedPage True)))
     = settle 1 (Fulfilled (Some [sampleFeature 7])) (Fulfilled [])
        (settle 2 (Fulfilled (Some [])) (Fulfilled [])
           (loadStations Country None (mountedPage True)))"
proof -
  have r: "reachable (loadStations Country None (mountedPage True))"
    unfolding retriedPage_eq [symmetric] by (rule reachable_run)
  have t: "1 \<noteq> requestTokenRef (loadStations Country None (mountedPage True))"
    by (simp add: loadStations_fields mountedPage_fields)
  have i: "map pl_requestToken (inflight (loadStations Country None (mountedPage True))) = [1, 2]"
    by (simp add: loadStations_inflight mountedPage_fields newLoad_def Let_def initial_def)
  have "stations (loadStations Country None (mountedPage True)) = []"
    "hasLoadedOnceRef (loadStations Country None (mountedPage True)) = False"
    "requestTokenRef (loadStations Country None (mountedPage True)) = 2"
    by (simp_all add: loadStations_fields mountedPage_fields)
  with r i stale_response_discarded [OF t, of "Fulfilled (Some [sampleFeature 7])" "Fulfilled []"
      _ _ _ 2 "Fulfilled (Some [])" "Fulfilled []"]
  show ?thesis by (simp add: serviceLog_simps)
qed

subsection \<open>Cancellation\<close>

text \<open>The claim that the signal covers both sub-fetches fails: the call of
  \<^verbatim>\<open>fetchChargingStations()\<close> of the load started at mount carries no signal.\<close>

theorem store_fetch_has_no_signal:
  "pl_requests (hd (inflight (mountedPage True))) ! 1 = FetchChargingStations
   \<and> request_signal (pl_requests (hd (inflight (mountedPage True))) ! 1)
       \<noteq> Some (pl_controller (hd (inflight (mountedPage True))))"
  by (simp add: mountedPage_fields newLoad_def Let_def)

text \<open>
  C2, amended. In a reachable page at most one suspended load has a controller that is
  not aborted. A call of \<open>loadStations\<close> aborts the controller \<^verbatim>\<open>fetchControllerRef\<close>
  points to and nothing else, after which every load \<open>p\<close> that was suspended is aborted
  and no longer current. When such a load settles, fulfilled or rejected, the page is
  unchanged but for the load leaving the list of suspended loads and for the console,
  which gains the line of the service if the store's query has failed: the stations stay,
  no error message is set, the loading flag stays on. The same holds in any reachable
  page for a load that is not the current one. The signal of the new controller is handed to
  \<^verbatim>\<open>fetchStations\<close> only; \<^verbatim>\<open>fetchChargingStations\<close> receives none.
\<close>

theorem new_load_supersedes_previous:
  assumes "reachable s" and "p \<in> set (inflight s)"
  shows "length (filter (\<lambda>q. \<not> signal_aborted s (pl_controller q)) (inflight s)) \<le> 1
       \<and> controllers (loadStations m ob s) = abortCurrent s @ [False]
       \<and> signal_aborted (loadStations m ob s) (pl_controller p)
       \<and> pl_requestToken p \<noteq> requestTokenRef (loadStations m ob s)
       \<and> settle (pl_requestToken p) ocm store (loadStations m ob s)
           = (loadStations m ob s)\<lparr>inflight := remove1 p (inflight (loadStations m ob s)),
                                    console := console s @ serviceLog store\<rparr>
       \<and> error (settle (pl_requestToken p) ocm store (loadStations m ob s)) = None
       \<and> loadingStations (settle (pl_requestToken p) ocm store (loadStations m ob s))
       \<and> stations (settle (pl_requestToken p) ocm store (loadStations m ob s)) = stations s
       \<and> (pl_requestToken p \<noteq> requestTokenRef s \<longrightarrow>
            settle (pl_requestToken p) ocm store s
              = s\<lparr>inflight := remove1 p (inflight s), console := console s @ serviceLog store\<rparr>)
       \<and> map request_signal (pl_requests (newLoad m ob s))
           = [Some (pl_controller (newLoad m ob s)), None]
       \<and> \<not> signal_aborted (loadStations m ob s) (pl_controller (newLoad m ob s))"
proof -
  let ?s = "loadStations m ob s"
  from assms(1) have inv: "loads_inv s" using reachable_page_inv by (simp add: page_inv_def)
  have one: "length (filter (\<lambda>q. \<not> signal_aborted s (pl_controller q)) (inflight s)) \<le> 1"
    using inv by (rule live_at_most_one)
  have c: "pl_controller p < length (controllers s)" and t: "pl_requestToken p \<le> requestTokenRef s"
    and a: "\<not> signal_aborted s (pl_controller p) \<longrightarrow> fetchControllerRef s = Some (pl_controller p)"
    and st: "pl_requestToken p \<noteq> requestTokenRef s \<longrightarrow> signal_aborted s (pl_controller p)"
    and d: "distinct (map pl_requestToken (inflight s))"
    using inv assms(2) by (auto simp: loads_inv_def)
  have "abortCurrent s ! pl_controller p"
  proof (cases "signal_aborted s (pl_controller p)")
    case True then show ?thesis using c by (simp add: signal_aborted_def abortCurrent_mono)
  next
    case False with a c show ?thesis by (simp add: abortCurrent_current)
  qed
  then have ab: "signal_aborted ?s (pl_controller p)"
    using c by (simp add: signal_aborted_def loadStations_fields nth_append)
  have stale: "pl_requestToken p \<noteq> requestTokenRef ?s" using t by (simp add: loadStations_fields)
  have f0: "find (\<lambda>q. pl_requestToken q = pl_requestToken p) (inflight s) = Some p"
    using d assms(2) by (rule find_distinct_token)
  then have f: "find (\<lambda>q. pl_requestToken q = pl_requestToken p) (inflight ?s) = Some p"
    by (simp add: loadStations_inflight find_append_Some)
  have eq: "settle (pl_requestToken p) ocm store ?s
          = ?s\<lparr>inflight := remove1 p (inflight ?s), console := console s @ serviceLog store\<rparr>"
    using settle_cancelled [OF f ab stale, of ocm store] by (simp add: loadStations_fields)
  have later: "pl_requestToken p \<noteq> requestTokenRef s \<longrightarrow>
            settle (pl_requestToken p) ocm store s
              = s\<lparr>inflight := remove1 p (inflight s), console := console s @ serviceLog store\<rparr>"
    using f0 st by (auto intro: settle_cancelled)
  have sig: "map request_signal (pl_requests (newLoad m ob s)) = [Some (pl_controller (newLoad m ob s)), None]"
    by (simp add: newLoad_def Let_def)
  have fresh: "\<not> signal_aborted ?s (pl_controller (newLoad m ob s))"
    by (simp add: newLoad_def Let_def signal_aborted_def loadStations_fields nth_append)
  show ?thesis
    using one ab stale eq later sig fresh by (simp add: loadStations_fields)
qed

theorem new_load_supersedes_previous_witness:
  "reachable (mountedPage True)
   \<and> newLoad Country None (initial True []) \<in> set (inflight (mountedPage True))
   \<and> signal_aborted (loadStations Bounds (Some sampleBox) (mountedPage True)) 0
   \<and> stations (settle 1 (Fulfilled (Some [sampleFeature 7])) (Fulfilled [])
        (loadStations Bounds (Some sampleBox) (mountedPage True))) = []
   \<and> loadingStations (settle 1 (Fulfilled (Some [sampleFeature 7])) (Fulfilled [])
        (loadStations Bounds (Some sampleBox) (mountedPage True)))"
proof -
  have r: "reachable (mountedPage True)" unfolding mountedPage_def by (rule reachable_run)
  have p: "newLoad Country None (initial True []) \<in> set (inflight (mountedPage True))"
    by (simp add: mountedPage_fields)
  have v: "pl_requestToken (newLoad Country None (initial True [])) = 1"
    "pl_controller (newLoad Country None (initial True [])) = 0"
    by (simp_all add: newLoad_def initial_def)
  from new_load_supersedes_previous [OF r p, of Bounds "Some sampleBox"
      "Fulfilled (Some [sampleFeature 7])" "Fulfilled []"] r p
  show ?thesis by (simp add: v mountedPage_fields loadStations_fields)
qed

section \<open>The result of the current load\<close>

lemma settle_current:
  assumes "find (\<lambda>q. pl_requestToken q = requestTokenRef s) (inflight s) = Some p"
  shows "settle (requestTokenRef s) (Fulfilled d) store s =
     (let s1 = applyResult p d (customStationsOf store)
                 (s\<lparr>inflight := remove1 p (inflight s), console := console s @ serviceLog store\<rparr>)
      in if \<not> signal_aborted s (pl_controller p) then s1\<lparr>loadingStations := False\<rparr> else s1)"
  using assms by (simp add: settle_def resume_alt Let_def signal_aborted_def)

lemma applyResult_bookkeeping:
  assumes "pl_requestToken p = requestTokenRef s"
  shows "lastContextRef (applyResult p d cs s) = pl_nextContext p"
    "lastUpdated (applyResult p d cs s) = Some (now s)"
    "hasLoadedOnceRef (applyResult p d cs s)"
    "loadLog (applyResult p d cs s) = loadLog s"
    "now (applyResult p d cs s) = now s"
    "error (applyResult p d cs s) = error s"
    "loadingStations (applyResult p d cs s) = loadingStations s"
  using assms by (simp_all add: applyResult_def Let_def split: option.splits list.splits)


lemma settle_current_fields:
  assumes "find (\<lambda>q. pl_requestToken q = requestTokenRef s) (inflight s) = Some p"
  shows
    "stations (settle (requestTokenRef s) (Fulfilled d) store s)
       = stations (applyResult p d (customStationsOf store)
            (s\<lparr>inflight := remove1 p (inflight s), console := console s @ serviceLog store\<rparr>))"
    "lastNonEmptyStationsRef (settle (requestTokenRef s) (Fulfilled d) store s)
       = lastNonEmptyStationsRef (applyResult p d (customStationsOf store)
            (s\<lparr>inflight := remove1 p (inflight s), console := console s @ serviceLog store\<rparr>))"
    "console (settle (requestTokenRef s) (Fulfilled d) store s)
       = console (applyResult p d (customStationsOf store)
            (s\<lparr>inflight := remove1 p (inflight s), console := console s @ serviceLog store\<rparr>))"
    "error (settle (requestTokenRef s) (Fulfilled d) store s)
       = error (applyResult p d (customStationsOf store)
            (s\<lparr>inflight := remove1 p (inflight s), console := console s @ serviceLog store\<rparr>))"
    "lastContextRef (settle (requestTokenRef s) (Fulfilled d) store s)
       = lastContextRef (applyResult p d (customStationsOf store)
            (s\<lparr>inflight := remove1 p (inflight s), console := console s @ serviceLog store\<rparr>))"
    "lastUpdated (settle (requestTokenRef s) (Fulfilled d) store s)
       = lastUpdated (applyResult p d (customStationsOf store)
            (s\<lparr>inflight := remove1 p (inflight s), console := console s @ serviceLog store\<rparr>))"
    "hasLoadedOnceRef (settle (requestTokenRef s) (Fulfilled d) store s)
       = hasLoadedOnceRef (applyResult p d (customStationsOf store)
            (s\<lparr>inflight := remove1 p (inflight s), console := console s @ serviceLog store\<rparr>))"
    "loadLog (settle (requestTokenRef s) (Fulfilled d) store s)
       = loadLog (applyResult p d (customStationsOf store)
            (s\<lparr>inflight := remove1 p (inflight s), console := console s @ serviceLog store\<rparr>))"
    "now (settle (requestTokenRef s) (Fulfilled d) store s)
       = now (applyResult p d (customStationsOf store)
            (s\<lparr>inflight := remove1 p (inflight s), console := console s @ serviceLog store\<rparr>))"
    "loadingStations (settle (requestTokenRef s) (Fulfilled d) store s)
       = (signal_aborted s (pl_controller p) \<and>
          loadingStations (applyResult p d (customStationsOf store)
            (s\<lparr>inflight := remove1 p (inflight s), console := console s @ serviceLog store\<rparr>)))"
  by (simp_all add: settle_current [OF assms] Let_def)

lemma applyResult_empty_kept:
  assumes "pl_requestToken p = requestTokenRef s"
    and "mergeStationsWithOCM cs (case d of Some fs \<Rightarrow> fs | None \<Rightarrow> []) = []"
    and "hasLoadedOnceRef s" and "lastNonEmptyStationsRef s = Some (stations s)" and "stations s \<noteq> []"
  shows "stations (applyResult p d cs s) = stations s"
    "lastNonEmptyStationsRef (applyResult p d cs s) = Some (stations s)"
    "console (applyResult p d cs s) = console s @ [ConsoleWarn warnKeeping]"
proof -
  from assms(5) obtain x xs where l: "stations s = x # xs" by (cases "stations s") auto
  show "stations (applyResult p d cs s) = stations s"
    "lastNonEmptyStationsRef (applyResult p d cs s) = Some (stations s)"
    "console (applyResult p d cs s) = console s @ [ConsoleWarn warnKeeping]"
    using assms(1-4) l by (simp_all add: applyResult_def Let_def split: option.splits)
qed

lemma applyResult_empty_first:
  assumes "pl_requestToken p = requestTokenRef s"
    and "mergeStationsWithOCM cs (case d of Some fs \<Rightarrow> fs | None \<Rightarrow> []) = []"
    and "\<not> hasLoadedOnceRef s"
  shows "stations (applyResult p d cs s) = []"
    "console (applyResult p d cs s) = console s"
  using assms by (simp_all add: applyResult_def Let_def split: option.splits)

text \<open>
  C4. Let the current load settle with the third-party fetch fulfilled and the store's
  query rejected. The load completes as a success: the stored context, the last-updated
  time and the has-loaded-once flag are set, the error message is left as it was, and the
  loading flag is cleared unless the load was aborted. The store contributes the empty
  list, so the merged result is the third-party list; when that is not empty it is what
  is displayed. The console gains the line the service writes on the failure and, after
  it, at most the warning about an empty result; the page logs no error. However the
  third-party fetch settles, the page is, but for the console, the one reached had the
  store returned the empty list.
\<close>

theorem store_failure_tolerated:
  assumes "find (\<lambda>q. pl_requestToken q = requestTokenRef s) (inflight s) = Some p"
  shows "customStationsOf (Rejected e) = []
       \<and> mergeStationsWithOCM (customStationsOf (Rejected e)) fs = fs
       \<and> (settle (requestTokenRef s) ocm (Rejected e) s)\<lparr>console := c\<rparr>
           = (settle (requestTokenRef s) ocm (Fulfilled []) s)\<lparr>console := c\<rparr>
       \<and> error (settle (requestTokenRef s) (Fulfilled d) (Rejected e) s) = error s
       \<and> hasLoadedOnceRef (settle (requestTokenRef s) (Fulfilled d) (Rejected e) s)
       \<and> lastUpdated (settle (requestTokenRef s) (Fulfilled d) (Rejected e) s) = Some (now s)
       \<and> lastContextRef (settle (requestTokenRef s) (Fulfilled d) (Rejected e) s) = pl_nextContext p
       \<and> (fs \<noteq> [] \<longrightarrow>
            stations (settle (requestTokenRef s) (Fulfilled (Some fs)) (Rejected e) s) = fs
          \<and> lastNonEmptyStationsRef (settle (requestTokenRef s) (Fulfilled (Some fs)) (Rejected e) s)
              = Some fs
          \<and> console (settle (requestTokenRef s) (Fulfilled (Some fs)) (Rejected e) s)
              = console s @ [ConsoleErrorAbout ''Error fetching charging stations:'' e])
       \<and> (signal_aborted s (pl_controller p) \<or>
            loadingStations (settle (requestTokenRef s) (Fulfilled d) (Rejected e) s) = False)
       \<and> (console (settle (requestTokenRef s) (Fulfilled d) (Rejected e) s)
             = console s @ [ConsoleErrorAbout ''Error fetching charging stations:'' e]
          \<or> console (settle (requestTokenRef s) (Fulfilled d) (Rejected e) s)
             = console s @ [ConsoleErrorAbout ''Error fetching charging stations:'' e,
                            ConsoleWarn warnKeeping])"
proof -
  let ?s1 = "s\<lparr>inflight := remove1 p (inflight s), console := console s @ serviceLog (Rejected e)\<rparr>"
  have k: "pl_requestToken p = requestTokenRef ?s1"
    using find_token [OF assms] by simp
  note f = settle_current_fields [OF assms]
  note b = applyResult_bookkeeping [OF k]
  have c0: "customStationsOf (Rejected e) = []" by (simp add: customStationsOf_simps)
  have m: "mergeStationsWithOCM (customStationsOf (Rejected e)) fs = fs"
    by (simp add: c0 mergeStationsWithOCM_def)
  have same: "(settle (requestTokenRef s) ocm (Rejected e) s)\<lparr>console := c\<rparr>
           = (settle (requestTokenRef s) ocm (Fulfilled []) s)\<lparr>console := c\<rparr>"
  proof (cases ocm)
    case (Fulfilled d')
    with assms show ?thesis
      by (cases d')
        (simp_all add: settle_def resume_alt applyResult_def Let_def serviceLog_simps
          customStationsOf_simps split: list.splits option.splits)
  next
    case (Rejected err)
    with assms show ?thesis
      by (simp add: settle_def resume_alt Let_def serviceLog_simps)
  qed
  have shown: "fs \<noteq> [] \<longrightarrow>
            stations (settle (requestTokenRef s) (Fulfilled (Some fs)) (Rejected e) s) = fs
          \<and> lastNonEmptyStationsRef (settle (requestTokenRef s) (Fulfilled (Some fs)) (Rejected e) s)
              = Some fs
          \<and> console (settle (requestTokenRef s) (Fulfilled (Some fs)) (Rejected e) s)
              = console s @ [ConsoleErrorAbout ''Error fetching charging stations:'' e]"
    using k
    by (auto simp: f c0 serviceLog_simps applyResult_def Let_def mergeStationsWithOCM_def
        split: option.splits)
  have busy: "signal_aborted s (pl_controller p) \<or>
            loadingStations (settle (requestTokenRef s) (Fulfilled d) (Rejected e) s) = False"
    by (auto simp: f)
  have con: "console (settle (requestTokenRef s) (Fulfilled d) (Rejected e) s)
             = console s @ [ConsoleErrorAbout ''Error fetching charging stations:'' e]
          \<or> console (settle (requestTokenRef s) (Fulfilled d) (Rejected e) s)
             = console s @ [ConsoleErrorAbout ''Error fetching charging stations:'' e,
                            ConsoleWarn warnKeeping]"
    using k by (simp add: f serviceLog_simps applyResult_def Let_def split: option.splits list.splits)
  have rest: "error (settle (requestTokenRef s) (Fulfilled d) (Rejected e) s) = error s"
    "hasLoadedOnceRef (settle (requestTokenRef s) (Fulfilled d) (Rejected e) s)"
    "lastUpdated (settle (requestTokenRef s) (Fulfilled d) (Rejected e) s) = Some (now s)"
    "lastContextRef (settle (requestTokenRef s) (Fulfilled d) (Rejected e) s) = pl_nextContext p"
    by (simp_all add: f b)
  from c0 m same rest shown busy con show ?thesis by blast
qed

lemma mountedPage_find:
  "find (\<lambda>q. pl_requestToken q = requestTokenRef (mountedPage auto)) (inflight (mountedPage auto))
     = Some (newLoad Country None (initial auto []))"
  by (simp add: mountedPage_fields newLoad_initial)

theorem store_failure_tolerated_witness:
  "find (\<lambda>q. pl_requestToken q = requestTokenRef (mountedPage True)) (inflight (mountedPage True))
     = Some (newLoad Country None (initial True []))
   \<and> requestTokenRef (mountedPage True) = 1
   \<and> stations (mountedPage True) = [] \<and> loadingStations (mountedPage True)
   \<and> console (settle 1 (Fulfilled (Some [sampleFeature 7])) (Rejected (Some ''unavailable''))
        (mountedPage True)) = [ConsoleErrorAbout ''Error fetching charging stations:'' (Some ''unavailable'')]
   \<and> stations (settle 1 (Fulfilled (Some [sampleFeature 7])) (Rejected (Some ''unavailable''))
        (mountedPage True)) = [sampleFeature 7]
   \<and> error (settle 1 (Fulfilled (Some [sampleFeature 7])) (Rejected (Some ''unavailable''))
        (mountedPage True)) = None
   \<and> hasLoadedOnceRef (settle 1 (Fulfilled (Some [sampleFeature 7])) (Rejected (Some ''unavailable''))
        (mountedPage True))
   \<and> loadingStations (settle 1 (Fulfilled (Some [sampleFeature 7])) (Rejected (Some ''unavailable''))
        (mountedPage True)) = False
   \<and> lastUpdated (settle 1 (Fulfilled (Some [sampleFeature 7])) (Rejected (Some ''unavailable''))
        (mountedPage True)) = Some 0"
proof -
  have a: "\<not> signal_aborted (mountedPage True) (pl_controller (newLoad Country None (initial True [])))"
    by (simp add: signal_aborted_def mountedPage_fields newLoad_initial)
  have n: "[sampleFeature 7] \<noteq> []" by simp
  from store_failure_tolerated [OF mountedPage_find [of True], of "Some ''unavailable''"
      "[sampleFeature 7]" _ _ "Some [sampleFeature 7]"] a n mountedPage_find [of True]
  show ?thesis by (simp add: mountedPage_fields mountedPage_more)
qed

text \<open>
  C3. In a reachable page, let the current load be fulfilled with an empty merged result.
  If a non-empty list is displayed, it stays displayed, it stays the last non-empty list,
  and the warning is logged. If no load has completed before, the empty list is displayed
  and the page logs nothing. In both cases the console first gains the line of the
  service, if the store's query has failed. No error message is set.
\<close>

theorem empty_result_keeps_previous_list:
  assumes "reachable s"
    and "find (\<lambda>q. pl_requestToken q = requestTokenRef s) (inflight s) = Some p"
    and "mergeStationsWithOCM (customStationsOf store)
           (case d of Some fs \<Rightarrow> fs | None \<Rightarrow> []) = []"
  shows "(stations s \<noteq> [] \<longrightarrow>
            stations (settle (requestTokenRef s) (Fulfilled d) store s) = stations s
          \<and> lastNonEmptyStationsRef (settle (requestTokenRef s) (Fulfilled d) store s) = Some (stations s)
          \<and> console (settle (requestTokenRef s) (Fulfilled d) store s)
              = console s @ serviceLog store @ [ConsoleWarn warnKeeping])
       \<and> (\<not> hasLoadedOnceRef s \<longrightarrow>
            stations (settle (requestTokenRef s) (Fulfilled d) store s) = []
          \<and> console (settle (requestTokenRef s) (Fulfilled d) store s)
              = console s @ serviceLog store)
       \<and> error (settle (requestTokenRef s) (Fulfilled d) store s) = error s"
proof -
  let ?s1 = "s\<lparr>inflight := remove1 p (inflight s), console := console s @ serviceLog store\<rparr>"
  let ?cs = "customStationsOf store"
  from assms(1) have inv: "display_inv s" using reachable_page_inv by (simp add: page_inv_def)
  have k: "pl_requestToken p = requestTokenRef ?s1"
    using find_token [OF assms(2)] by simp
  note f = settle_current_fields [OF assms(2)]
  have kept: "stations (applyResult p d ?cs ?s1) = stations s
      \<and> lastNonEmptyStationsRef (applyResult p d ?cs ?s1) = Some (stations s)
      \<and> console (applyResult p d ?cs ?s1) = console s @ serviceLog store @ [ConsoleWarn warnKeeping]"
    if ne: "stations s \<noteq> []"
  proof -
    from inv ne have "lastNonEmptyStationsRef ?s1 = Some (stations ?s1)" "hasLoadedOnceRef ?s1"
      by (auto simp: display_inv_def split: option.splits)
    with applyResult_empty_kept [OF k assms(3), of] ne show ?thesis by simp
  qed
  have first: "stations (applyResult p d ?cs ?s1) = []
      \<and> console (applyResult p d ?cs ?s1) = console s @ serviceLog store"
    if "\<not> hasLoadedOnceRef s"
    using applyResult_empty_first [OF k assms(3)] that by simp
  have "error (applyResult p d ?cs ?s1) = error s"
    using applyResult_bookkeeping(6) [OF k] by simp
  with kept first show ?thesis by (simp add: f)
qed

theorem empty_result_keeps_previous_list_witness:
  "reachable searchingPage
   \<and> stations searchingPage = [sampleFeature 7]
   \<and> console searchingPage = []
   \<and> stations (settle 2 (Fulfilled (Some [])) (Rejected None) searchingPage) = [sampleFeature 7]
   \<and> console (settle 2 (Fulfilled (Some [])) (Rejected None) searchingPage)
       = [ConsoleErrorAbout ''Error fetching charging stations:'' None, ConsoleWarn warnKeeping]
   \<and> console (settle 2 (Fulfilled (Some [])) (Fulfilled []) searchingPage)
       = [ConsoleWarn warnKeeping]
   \<and> \<not> hasLoadedOnceRef (mountedPage True)
   \<and> stations (settle 1 (Fulfilled (Some [])) (Rejected None) (mountedPage True)) = []
   \<and> console (settle 1 (Fulfilled (Some [])) (Rejected None) (mountedPage True))
       = [ConsoleErrorAbout ''Error fetching charging stations:'' None]"
proof -
  have r: "reachable (mountedPage True)" unfolding mountedPage_def by (rule reachable_run)
  have m: "mergeStationsWithOCM (customStationsOf st)
           (case Some [] of Some fs \<Rightarrow> fs | None \<Rightarrow> []) = []"
    if "customStationsOf st = []" for st
    using that by (simp add: mergeStationsWithOCM_def)
  from empty_result_keeps_previous_list [OF reachable_searchingPage searchingPage_find
      m [of "Rejected None"]]
    empty_result_keeps_previous_list [OF reachable_searchingPage searchingPage_find
      m [of "Fulfilled []"]]
    empty_result_keeps_previous_list [OF r mountedPage_find [of True] m [of "Rejected None"]]
    reachable_searchingPage
  show ?thesis
    by (simp add: searchingPage_fields mountedPage_fields mountedPage_more serviceLog_simps
        customStationsOf_simps)
qed

text \<open>
  C10. In a reachable page, whenever the current load is fulfilled, whatever the merged
  result and whatever is displayed afterwards, the stored context becomes the context
  computed from that load's source bounds, the last-updated time becomes the current
  time, and the has-loaded-once flag is set. A retry right after calls \<open>loadStations\<close>
  with that load's mode and the bounds rebuilt from the stored tuple.
\<close>

theorem authoritative_success_updates_bookkeeping:
  assumes "reachable s"
    and "find (\<lambda>q. pl_requestToken q = requestTokenRef s) (inflight s) = Some p"
  shows "lastContextRef (settle (requestTokenRef s) (Fulfilled d) store s) = pl_nextContext p
       \<and> pl_nextContext p = nextContextOf (pl_sourceBounds p)
       \<and> lastUpdated (settle (requestTokenRef s) (Fulfilled d) store s) = Some (now s)
       \<and> hasLoadedOnceRef (settle (requestTokenRef s) (Fulfilled d) store s)
       \<and> loadLog (handleRetry (settle (requestTokenRef s) (Fulfilled d) store s))
           = loadLog s @ [\<lparr> lc_time = now s, lc_mode = pl_mode p,
                            lc_bounds = boundsFromTuple (ctx_bounds (pl_nextContext p)) \<rparr>]"
proof -
  let ?s = "settle (requestTokenRef s) (Fulfilled d) store s"
  let ?s1 = "s\<lparr>inflight := remove1 p (inflight s), console := console s @ serviceLog store\<rparr>"
  from assms(1) have inv: "loads_inv s" using reachable_page_inv by (simp add: page_inv_def)
  have k: "pl_requestToken p = requestTokenRef ?s1" and p: "p \<in> set (inflight s)"
    using find_token [OF assms(2)] by simp_all
  from inv p have ctx: "pl_nextContext p = nextContextOf (pl_sourceBounds p)"
    and md: "pl_mode p = Bounds \<longleftrightarrow> pl_sourceBounds p \<noteq> None"
    by (simp_all add: loads_inv_def)
  note f = settle_current_fields [OF assms(2)]
  note b = applyResult_bookkeeping [OF k]
  have c: "lastContextRef ?s = pl_nextContext p" and u: "lastUpdated ?s = Some (now s)"
    and h: "hasLoadedOnceRef ?s" and l: "loadLog ?s = loadLog s" and n: "now ?s = now s"
    by (simp_all add: f b)
  have r: "loadLog (handleRetry ?s) = loadLog s @ [\<lparr> lc_time = now s, lc_mode = pl_mode p,
                            lc_bounds = boundsFromTuple (ctx_bounds (pl_nextContext p)) \<rparr>]"
  proof (cases "pl_sourceBounds p")
    case None
    with md have "pl_mode p = Country" by (cases "pl_mode p") simp_all
    with None ctx c l n show ?thesis
      by (simp add: handleRetry_def Let_def nextContextOf_def loadStations_fields boundsFromTuple_def)
  next
    case (Some b)
    with md have "pl_mode p = Bounds" by simp
    with Some ctx c l n show ?thesis
      by (simp add: handleRetry_def Let_def nextContextOf_def loadStations_fields boundsFromTuple_def)
  qed
  from c ctx u h r show ?thesis by simp
qed

theorem authoritative_success_updates_bookkeeping_witness:
  "reachable searchingPage
   \<and> stations (settle 2 (Fulfilled (Some [])) (Fulfilled []) searchingPage) = [sampleFeature 7]
   \<and> lastContextRef (settle 2 (Fulfilled (Some [])) (Fulfilled []) searchingPage)
       = \<lparr> ctx_mode = Bounds, ctx_bounds = Some (413/10, 197/10, 41, 20123457/1000000) \<rparr>
   \<and> lastUpdated (settle 2 (Fulfilled (Some [])) (Fulfilled []) searchingPage) = Some 0
   \<and> hasLoadedOnceRef (settle 2 (Fulfilled (Some [])) (Fulfilled []) searchingPage)
   \<and> last (loadLog (handleRetry (settle 2 (Fulfilled (Some [])) (Fulfilled []) searchingPage)))
       = \<lparr> lc_time = 0, lc_mode = Bounds,
           lc_bounds = Some (box (413/10) (20123457/1000000) 41 (197/10)) \<rparr>"
proof -
  have m: "mergeStationsWithOCM (customStationsOf (Fulfilled []))
           (case Some [] of Some fs \<Rightarrow> fs | None \<Rightarrow> []) = []"
    by (simp add: mergeStationsWithOCM_def customStationsOf_simps)
  have st: "stations (settle 2 (Fulfilled (Some [])) (Fulfilled []) searchingPage) = [sampleFeature 7]"
    using settle_current_fields(1) [OF searchingPage_find, of "Some []" "Fulfilled []"]
      applyResult_empty_kept(1) [of "hd (inflight searchingPage)"
        "searchingPage\<lparr>inflight := remove1 (hd (inflight searchingPage)) (inflight searchingPage),
                       console := console searchingPage @ serviceLog (Fulfilled [])\<rparr>"
        "customStationsOf (Fulfilled [])" "Some []"] m
    by (simp add: searchingPage_fields)
  from authoritative_success_updates_bookkeeping [OF reachable_searchingPage searchingPage_find,
      of "Some []" "Fulfilled []"] reachable_searchingPage st
  show ?thesis
    by (simp add: searchingPage_fields boundsFromTuple_def L_latLngBounds_def box_def)
qed

section \<open>Retry\<close>















lemma searchingPage_more:
  "controllers searchingPage = [True, False]"
  "fetchControllerRef searchingPage = Some 1"
  "loadingStations searchingPage = True"
  "lastUpdated searchingPage = Some 0"
  "timers searchingPage = []"
  "mapRef searchingPage = Some viewBox"
  "autoUpdate searchingPage = False"
  "pendingBoundsRef searchingPage = Some viewBox"
  "pendingSearch searchingPage = False"
  by (simp_all add: searchingPage_eq loadStations_fields loadedPage_fields abortCurrent_def)




section \<open>The viewport tracker\<close>

subsection \<open>Auto-update off\<close>

lemma step_MapMove_manual:
  assumes "\<not> autoUpdate s" and "mapRef s \<noteq> None"
  shows "step (MapMove b) s = s\<lparr>mapRef := Some b, pendingBoundsRef := Some b, pendingSearch := True\<rparr>"
  using assms by (auto simp: step.simps handleMapMove_def)

lemma handleSearchArea_loadLog:
  "loadLog (handleSearchArea s) =
     (case pendingBoundsRef s of
        Some pb \<Rightarrow> loadLog s @ [\<lparr> lc_time = now s, lc_mode = Bounds, lc_bounds = Some pb \<rparr>]
      | None \<Rightarrow> (case mapRef s of
                   Some m \<Rightarrow> loadLog s @ [\<lparr> lc_time = now s, lc_mode = Bounds, lc_bounds = Some m \<rparr>]
                 | None \<Rightarrow> loadLog s))"
  by (simp add: handleSearchArea_def loadStations_fields split: option.splits)

lemma pendingBoundsRef_fold_fireTimer: "pendingBoundsRef (fold fireTimer ts s) = pendingBoundsRef s"
  by (induction ts arbitrary: s) (simp_all add: fireTimer_def loadStations_fields)

lemma pendingBoundsRef_quiet:
  assumes "quiet e"
  shows "pendingBoundsRef (step e s) = pendingBoundsRef s"
proof (cases e)
  case (Mount b)
  then show ?thesis
    by (simp add: step.simps mount_def Let_def autoUpdateEffect_def loadStations_fields
        split: option.splits)
next
  case (MapMove b)
  with assms show ?thesis by simp
next
  case (Advance d)
  then show ?thesis by (simp add: step.simps advance_def Let_def pendingBoundsRef_fold_fireTimer)
next
  case (Settle k ocm st)
  with assms obtain err where "ocm = Rejected err" by (cases ocm) auto
  with Settle show ?thesis
    by (simp add: step.simps settle_def resume_alt Let_def split: option.splits)
next
  case SearchArea
  then show ?thesis by (simp add: step.simps handleSearchArea_def loadStations_fields split: option.splits)
next
  case Retry
  then show ?thesis by (simp add: step.simps handleRetry_def Let_def loadStations_fields split: option.splits)
next
  case ToggleAuto
  then show ?thesis
    by (simp add: step.simps handleToggleAutoUpdate_def autoUpdateEffect_def loadStations_fields
        split: option.splits)
next
  case (SearchInput q)
  then show ?thesis by (simp add: step.simps)
next
  case Unmount
  then show ?thesis
    by (simp add: step.simps unmount_def Let_def abort_def clearTimeout_def split: option.splits)
qed

lemma pendingBoundsRef_run_quiet:
  "\<forall>e \<in> set evs. quiet e \<Longrightarrow> pendingBoundsRef (run evs s) = pendingBoundsRef s"
  by (induction evs arbitrary: s) (simp_all add: run_Nil run_Cons pendingBoundsRef_quiet)

text \<open>With auto-update off and a map present, a map move to viewport \<open>b\<close> calls
  \<open>loadStations\<close> not at all and schedules nothing; the pending-search flag is set and
  \<open>b\<close> is stored as the pending bounds. "Search this area" right after makes exactly
  one call, in the same step and without a timer: a bounds-scoped load with \<open>b\<close>. The
  same call is made when other events come in between, as long as none of them is a
  further map move or a fulfilled load.\<close>

lemma manual_search_quiet:
  assumes "\<not> autoUpdate s" and "mapRef s \<noteq> None"
  shows "loadLog (step (MapMove b) s) = loadLog s
       \<and> inflight (step (MapMove b) s) = inflight s
       \<and> requestTokenRef (step (MapMove b) s) = requestTokenRef s
       \<and> timers (step (MapMove b) s) = timers s
       \<and> pendingSearch (step (MapMove b) s)
       \<and> pendingBoundsRef (step (MapMove b) s) = Some b
       \<and> inflight (step SearchArea (step (MapMove b) s)) = inflight s @ [newLoad Bounds (Some b) s]
       \<and> loadLog (step SearchArea (step (MapMove b) s))
           = loadLog s @ [\<lparr> lc_time = now s, lc_mode = Bounds, lc_bounds = Some b \<rparr>]
       \<and> timers (step SearchArea (step (MapMove b) s)) = timers s
       \<and> \<not> pendingSearch (step SearchArea (step (MapMove b) s))
       \<and> ((\<forall>e \<in> set evs. quiet e) \<longrightarrow>
            loadLog (step SearchArea (run evs (step (MapMove b) s)))
              = loadLog (run evs (step (MapMove b) s))
                @ [\<lparr> lc_time = now (run evs (step (MapMove b) s)), lc_mode = Bounds,
                     lc_bounds = Some b \<rparr>])
       \<and> (pendingBoundsRef s = None \<longrightarrow>
            loadLog (step SearchArea s)
              = loadLog s @ [\<lparr> lc_time = now s, lc_mode = Bounds, lc_bounds = mapRef s \<rparr>])
       \<and> (\<forall>pb. pendingBoundsRef s = Some pb \<longrightarrow>
            loadLog (step SearchArea s)
              = loadLog s @ [\<lparr> lc_time = now s, lc_mode = Bounds, lc_bounds = Some pb \<rparr>])"
proof -
  note m = step_MapMove_manual [OF assms, of b]
  have sa: "step SearchArea (step (MapMove b) s)
           = loadStations Bounds (Some b) ((step (MapMove b) s)\<lparr>pendingSearch := False\<rparr>)"
    by (simp add: step.simps(5) handleSearchArea_def m)
  have a: "loadLog (step (MapMove b) s) = loadLog s" "inflight (step (MapMove b) s) = inflight s"
    "requestTokenRef (step (MapMove b) s) = requestTokenRef s" "timers (step (MapMove b) s) = timers s"
    "pendingSearch (step (MapMove b) s)" "pendingBoundsRef (step (MapMove b) s) = Some b"
    "now (step (MapMove b) s) = now s"
    by (simp_all add: m)
  have b1: "loadLog (step SearchArea (step (MapMove b) s))
           = loadLog s @ [\<lparr> lc_time = now s, lc_mode = Bounds, lc_bounds = Some b \<rparr>]"
    "timers (step SearchArea (step (MapMove b) s)) = timers s"
    "\<not> pendingSearch (step SearchArea (step (MapMove b) s))"
    "inflight (step SearchArea (step (MapMove b) s)) = inflight s @ [newLoad Bounds (Some b) s]"
    unfolding sa by (simp_all add: loadStations_fields loadStations_inflight a newLoad_def m)
  have c: "pendingBoundsRef s = None \<longrightarrow>
            loadLog (step SearchArea s)
              = loadLog s @ [\<lparr> lc_time = now s, lc_mode = Bounds, lc_bounds = mapRef s \<rparr>]"
    using assms(2) by (auto simp: step.simps handleSearchArea_loadLog)
  have d: "\<forall>pb. pendingBoundsRef s = Some pb \<longrightarrow>
            loadLog (step SearchArea s)
              = loadLog s @ [\<lparr> lc_time = now s, lc_mode = Bounds, lc_bounds = Some pb \<rparr>]"
    by (simp add: step.simps handleSearchArea_loadLog)
  have q: "(\<forall>e \<in> set evs. quiet e) \<longrightarrow>
            loadLog (step SearchArea (run evs (step (MapMove b) s)))
              = loadLog (run evs (step (MapMove b) s))
                @ [\<lparr> lc_time = now (run evs (step (MapMove b) s)), lc_mode = Bounds,
                     lc_bounds = Some b \<rparr>]"
  proof
    assume "\<forall>e \<in> set evs. quiet e"
    then have "pendingBoundsRef (run evs (step (MapMove b) s)) = Some b"
      using a(6) by (simp add: pendingBoundsRef_run_quiet)
    then show "loadLog (step SearchArea (run evs (step (MapMove b) s)))
              = loadLog (run evs (step (MapMove b) s))
                @ [\<lparr> lc_time = now (run evs (step (MapMove b) s)), lc_mode = Bounds,
                     lc_bounds = Some b \<rparr>]"
      by (simp add: step.simps handleSearchArea_loadLog)
  qed
  from a b1 q c d show ?thesis by blast
qed

lemma movedPage_eq:
  "step (MapMove movedBox) searchingPage
     = searchingPage\<lparr>mapRef := Some movedBox, pendingBoundsRef := Some movedBox, pendingSearch := True\<rparr>"
  by (rule step_MapMove_manual) (simp_all add: searchingPage_more)

lemma lateResponsePage_trace:
  "lateResponsePage =
     run [Mount sampleBox, Settle 1 (Fulfilled (Some [sampleFeature 7])) (Fulfilled []),
          MapMove viewBox, SearchArea,
          MapMove movedBox, Settle 2 (Fulfilled (Some [sampleFeature 7])) (Fulfilled [])]
       (initial False [])"
proof -
  have "run ([Mount sampleBox, Settle 1 (Fulfilled (Some [sampleFeature 7])) (Fulfilled [])]
          @ [MapMove viewBox, SearchArea]
          @ [MapMove movedBox, Settle 2 (Fulfilled (Some [sampleFeature 7])) (Fulfilled [])])
         (initial False []) = lateResponsePage"
    unfolding lateResponsePage_def searchingPage_def loadedPage_def by (simp only: run_append)
  then show ?thesis by simp
qed

lemma lateResponsePage_eq:
  "lateResponsePage =
     settle 2 (Fulfilled (Some [sampleFeature 7])) (Fulfilled [])
       (searchingPage\<lparr>mapRef := Some movedBox, pendingBoundsRef := Some movedBox,
                      pendingSearch := True\<rparr>)"
  by (simp add: lateResponsePage_def run_Cons run_Nil movedPage_eq step.simps(4))

lemma lateResponsePage_fields:
  "autoUpdate lateResponsePage = False"
  "pendingSearch lateResponsePage = True"
  "mapRef lateResponsePage = Some movedBox"
  "pendingBoundsRef lateResponsePage = Some viewBox"
  "now lateResponsePage = 0"
  "loadLog lateResponsePage = loadLog searchingPage"
  "stations lateResponsePage = [sampleFeature 7]"
  "loadingStations lateResponsePage = False"
  "inflight lateResponsePage = []"
  by (simp_all add: lateResponsePage_eq settle_def
      searchingPage_fields searchingPage_more resume_alt applyResult_def Let_def
      serviceLog_simps customStationsOf_simps signal_aborted_def mergeStationsWithOCM_def)

text \<open>
  C8. The last step of the claim fails when a search settles after the map has moved
  on. With auto-update off from the start, the page is mounted and its first load
  settles; the map is moved to \<open>viewBox\<close> and "search this area" starts load 2 for it; the
  map is moved again, to \<open>movedBox\<close>, which sets the pending-search flag and stores
  \<open>movedBox\<close> as the pending bounds; then load 2 is fulfilled. On success \<open>loadStations\<close>
  stores its own source bounds as the pending bounds: they are \<open>viewBox\<close> again, while
  the flag stays set and the page goes on saying that a move was detected. "Search this
  area" now makes one bounds-scoped call, with \<open>viewBox\<close>: not with the bounds tracked at
  the last move, which are also those of the map.
\<close>

theorem search_area_after_late_response:
  "lateResponsePage =
     run [Mount sampleBox, Settle 1 (Fulfilled (Some [sampleFeature 7])) (Fulfilled []),
          MapMove viewBox, SearchArea,
          MapMove movedBox, Settle 2 (Fulfilled (Some [sampleFeature 7])) (Fulfilled [])]
       (initial False [])
   \<and> autoUpdate lateResponsePage = False
   \<and> pendingSearch lateResponsePage = True
   \<and> mapRef lateResponsePage = Some movedBox
   \<and> pendingBoundsRef (step (MapMove movedBox) searchingPage) = Some movedBox
   \<and> pendingBoundsRef lateResponsePage = Some viewBox
   \<and> viewBox \<noteq> movedBox
   \<and> loadLog (step SearchArea lateResponsePage)
       = loadLog lateResponsePage @ [\<lparr> lc_time = 0, lc_mode = Bounds, lc_bounds = Some viewBox \<rparr>]
   \<and> lc_bounds (last (loadLog (step SearchArea lateResponsePage))) \<noteq> Some movedBox"
proof -
  have ne: "viewBox \<noteq> movedBox" by (simp add: viewBox_def movedBox_def box_def)
  have l: "loadLog (step SearchArea lateResponsePage)
       = loadLog lateResponsePage @ [\<lparr> lc_time = 0, lc_mode = Bounds, lc_bounds = Some viewBox \<rparr>]"
    by (simp add: step.simps handleSearchArea_loadLog lateResponsePage_fields)
  have m: "pendingBoundsRef (step (MapMove movedBox) searchingPage) = Some movedBox"
    by (simp add: movedPage_eq)
  from ne l m lateResponsePage_trace show ?thesis
    by (simp add: lateResponsePage_fields)
qed

subsection \<open>Auto-update on: the debounce\<close>

lemma advance_idle:
  assumes "\<forall>t \<in> set (timers s). now s + d < tm_due t"
  shows "advance d s = s\<lparr>now := now s + d\<rparr>"
proof -
  have "filter (\<lambda>t. tm_due t \<le> now s + d) (timers s) = []"
    using assms by (auto simp: filter_empty_conv)
  then show ?thesis by (simp add: advance_def Let_def)
qed

lemma advance_single:
  assumes "timers s = [t]" and "tm_due t \<le> now s + d" and "now s \<le> tm_due t"
  shows "advance d s =
     (loadStations Bounds (Some (tm_bounds t)) (s\<lparr>timers := [], now := tm_due t\<rparr>))\<lparr>now := now s + d\<rparr>"
  using assms by (simp add: advance_def Let_def fireTimer_def max_def)

lemma armed_first:
  assumes "timers_inv s" and "autoUpdate s" and "mapRef s \<noteq> None"
  shows "armed (step (MapMove b) s) b \<and> loadLog (step (MapMove b) s) = loadLog s
       \<and> now (step (MapMove b) s) = now s"
proof -
  let ?s1 = "s\<lparr>mapRef := Some b\<rparr>"
  have t: "timers_inv ?s1" using assms(1) by (simp add: timers_inv_def)
  have a: "autoUpdate ?s1" using assms(2) by simp
  have m: "mapRef ?s1 = Some b" by simp
  have "step (MapMove b) s = handleMapMove ?s1" using assms(3) by (auto simp: step.simps)
  then show ?thesis using assms(2) by (simp add: handleMapMove_auto [OF t a m] armed_def)
qed

lemma armed_timers_inv: "armed s b \<Longrightarrow> timers_inv s"
  by (auto simp: armed_def timers_inv_def)

lemma armed_wait:
  assumes "armed s b" and "d < 450"
  shows "step (Advance d) s = s\<lparr>now := now s + d\<rparr>"
proof -
  from assms have "\<forall>t \<in> set (timers s). now s + d < tm_due t" by (auto simp: armed_def)
  then show ?thesis by (simp add: step.simps advance_idle)
qed

lemma armed_next:
  assumes "armed s b" and "d < 450"
  shows "armed (run [Advance d, MapMove b'] s) b' \<and> loadLog (run [Advance d, MapMove b'] s) = loadLog s
       \<and> now (run [Advance d, MapMove b'] s) = now s + d"
proof -
  let ?s1 = "s\<lparr>now := now s + d\<rparr>"
  have w: "step (Advance d) s = ?s1" using assms by (rule armed_wait)
  have t: "timers_inv ?s1" using armed_timers_inv [OF assms(1)] by (simp add: timers_inv_def)
  have a: "autoUpdate ?s1" "mapRef ?s1 \<noteq> None" using assms(1) by (simp_all add: armed_def)
  from armed_first [OF t a, of b'] show ?thesis by (simp add: run_Cons run_Nil w)
qed

lemma armed_burst:
  assumes "armed s b" and "\<forall>(d, b') \<in> set rest. d < 450"
  shows "armed (run (burst rest) s) (last (b # map snd rest))
       \<and> loadLog (run (burst rest) s) = loadLog s
       \<and> now (run (burst rest) s) = now s + sum_list (map fst rest)"
  using assms
proof (induction rest arbitrary: s b)
  case Nil
  then show ?case by (simp add: run_Nil)
next
  case (Cons x rest)
  obtain d b' where x: "x = (d, b')" by (cases x)
  from Cons.prems(2) x have d: "d < 450" and r: "\<forall>(d, b') \<in> set rest. d < 450" by auto
  let ?s1 = "run [Advance d, MapMove b'] s"
  from armed_next [OF Cons.prems(1) d, of b']
  have a1: "armed ?s1 b'" and l1: "loadLog ?s1 = loadLog s" and n1: "now ?s1 = now s + d" by simp_all
  have e: "run (burst (x # rest)) s = run (burst rest) ?s1" by (simp add: x run_Cons run_Nil)
  from Cons.IH [OF a1 r] l1 n1 show ?case unfolding e by (simp add: x)
qed

lemma armed_fires:
  assumes "armed s b"
  shows "(\<forall>d < 450. loadLog (step (Advance d) s) = loadLog s \<and> timers (step (Advance d) s) = timers s)
       \<and> (\<forall>d \<ge> 450. loadLog (step (Advance d) s)
              = loadLog s @ [\<lparr> lc_time = now s + 450, lc_mode = Bounds, lc_bounds = Some b \<rparr>]
            \<and> timers (step (Advance d) s) = [])"
proof (intro conjI allI impI)
  fix d :: nat assume "d < 450"
  with assms have w: "step (Advance d) s = s\<lparr>now := now s + d\<rparr>" by (rule armed_wait)
  show "loadLog (step (Advance d) s) = loadLog s" "timers (step (Advance d) s) = timers s"
    by (simp_all add: w)
next
  fix d :: nat assume d: "450 \<le> d"
  from assms obtain i where t: "timers s = [\<lparr> tm_id = i, tm_due = now s + 450, tm_bounds = b \<rparr>]"
    by (auto simp: armed_def)
  have e: "step (Advance d) s =
     (loadStations Bounds (Some b) (s\<lparr>timers := [], now := now s + 450\<rparr>))\<lparr>now := now s + d\<rparr>"
    using advance_single [OF t, of d] d by (simp add: step.simps)
  show "loadLog (step (Advance d) s)
              = loadLog s @ [\<lparr> lc_time = now s + 450, lc_mode = Bounds, lc_bounds = Some b \<rparr>]"
    "timers (step (Advance d) s) = []"
    by (simp_all add: e loadStations_fields)
qed

text \<open>
  C5. In a reachable page the timer queue holds at most one timer. With auto-update on
  and a map present, take a map move to \<open>b0\<close> followed by any number of further moves,
  each less than 450 ms after the one before. During the burst \<open>loadStations\<close> is not
  called; after it exactly one timer is pending, due 450 ms after the last move and
  carrying the last viewport. Waiting less than 450 ms more calls nothing; waiting 450 ms
  or more makes exactly one call, a bounds-scoped load with the last viewport, at 450 ms
  after the last move, and leaves the queue empty.
\<close>

theorem debounced_bounds_fetch:
  assumes "reachable s" and "autoUpdate s" and "mapRef s \<noteq> None"
    and "\<forall>(d, b) \<in> set rest. d < 450"
  shows "length (timers s) \<le> 1
       \<and> loadLog (run (MapMove b0 # burst rest) s) = loadLog s
       \<and> now (run (MapMove b0 # burst rest) s) = now s + sum_list (map fst rest)
       \<and> (\<exists>i. timers (run (MapMove b0 # burst rest) s)
                = [\<lparr> tm_id = i, tm_due = now (run (MapMove b0 # burst rest) s) + 450,
                      tm_bounds = last (b0 # map snd rest) \<rparr>])
       \<and> (\<forall>d < 450. loadLog (step (Advance d) (run (MapMove b0 # burst rest) s)) = loadLog s)
       \<and> (\<forall>d \<ge> 450. loadLog (step (Advance d) (run (MapMove b0 # burst rest) s))
              = loadLog s @ [\<lparr> lc_time = now (run (MapMove b0 # burst rest) s) + 450,
                               lc_mode = Bounds, lc_bounds = Some (last (b0 # map snd rest)) \<rparr>]
            \<and> timers (step (Advance d) (run (MapMove b0 # burst rest) s)) = [])"
proof -
  let ?s = "run (MapMove b0 # burst rest) s"
  from assms(1) have t: "timers_inv s" using reachable_page_inv by (simp add: page_inv_def)
  then have one: "length (timers s) \<le> 1" by (simp add: timers_inv_def)
  from armed_first [OF t assms(2,3), of b0]
  have a0: "armed (step (MapMove b0) s) b0" and l0: "loadLog (step (MapMove b0) s) = loadLog s"
    and n0: "now (step (MapMove b0) s) = now s" by simp_all
  have e: "?s = run (burst rest) (step (MapMove b0) s)" by (simp add: run_Cons)
  from armed_burst [OF a0 assms(4)] l0 n0
  have a: "armed ?s (last (b0 # map snd rest))" and l: "loadLog ?s = loadLog s"
    and n: "now ?s = now s + sum_list (map fst rest)"
    unfolding e by simp_all
  from a have tm: "\<exists>i. timers ?s = [\<lparr> tm_id = i, tm_due = now ?s + 450,
                      tm_bounds = last (b0 # map snd rest) \<rparr>]"
    by (auto simp: armed_def)
  from armed_fires [OF a] l
  have f1: "\<forall>d < 450. loadLog (step (Advance d) ?s) = loadLog s"
    and f2: "\<forall>d \<ge> 450. loadLog (step (Advance d) ?s)
              = loadLog s @ [\<lparr> lc_time = now ?s + 450,
                               lc_mode = Bounds, lc_bounds = Some (last (b0 # map snd rest)) \<rparr>]
            \<and> timers (step (Advance d) ?s) = []"
    by simp_all
  from one l n tm f1 f2 show ?thesis by blast
qed

theorem debounced_bounds_fetch_witness:
  "reachable (mountedPage True) \<and> autoUpdate (mountedPage True) \<and> mapRef (mountedPage True) \<noteq> None
   \<and> (100 :: nat) < 450 \<and> (449 :: nat) < 450
   \<and> now (run (MapMove viewBox # burst [(100, sampleBox), (449, viewBox)]) (mountedPage True)) = 549
   \<and> loadLog (step (Advance 449)
        (run (MapMove viewBox # burst [(100, sampleBox), (449, viewBox)]) (mountedPage True)))
       = [\<lparr> lc_time = 0, lc_mode = Country, lc_bounds = None \<rparr>]
   \<and> loadLog (step (Advance 450)
        (run (MapMove viewBox # burst [(100, sampleBox), (449, viewBox)]) (mountedPage True)))
       = [\<lparr> lc_time = 0, lc_mode = Country, lc_bounds = None \<rparr>,
          \<lparr> lc_time = 999, lc_mode = Bounds, lc_bounds = Some viewBox \<rparr>]"
proof -
  have r: "reachable (mountedPage True)" unfolding mountedPage_def by (rule reachable_run)
  have a: "autoUpdate (mountedPage True)" and m: "mapRef (mountedPage True) \<noteq> None"
    by (simp_all add: mountedPage_fields)
  have g: "\<forall>(d, b) \<in> set [(100, sampleBox), (449, viewBox)]. d < (450 :: nat)" by simp
  from debounced_bounds_fetch [OF r a m g, of viewBox] r a m
  show ?thesis by (simp add: mountedPage_fields)
qed

section \<open>Merge order, list order, marker order\<close>

lemma insort_custom: "f_isCustomStation x \<Longrightarrow> insort_key customRank x ys = x # ys"
  by (cases ys) (simp_all add: customRank_def)

lemma insort_other:
  assumes "\<not> f_isCustomStation x" and "\<forall>y \<in> set cs. f_isCustomStation y"
    and "\<forall>y \<in> set ns. \<not> f_isCustomStation y"
  shows "insort_key customRank x (cs @ ns) = cs @ x # ns"
  using assms(2)
proof (induction cs)
  case Nil
  show ?case using assms(1,3) by (cases ns) (simp_all add: customRank_def)
next
  case (Cons c cs)
  then show ?case using assms(1) by (simp add: customRank_def)
qed

lemma sort_key_customRank:
  "sort_key customRank xs = filter f_isCustomStation xs @ filter (\<lambda>f. \<not> f_isCustomStation f) xs"
proof (induction xs)
  case Nil
  show ?case by simp
next
  case (Cons x xs)
  show ?case
  proof (cases "f_isCustomStation x")
    case True
    then show ?thesis by (simp add: Cons.IH insort_custom)
  next
    case False
    have "insort_key customRank x (filter f_isCustomStation xs @ filter (\<lambda>f. \<not> f_isCustomStation f) xs)
        = filter f_isCustomStation xs @ x # filter (\<lambda>f. \<not> f_isCustomStation f) xs"
      using False by (intro insort_other) simp_all
    with False show ?thesis by (simp add: Cons.IH)
  qed
qed

lemma visibleStations_split:
  "visibleStations term sts =
     filter (\<lambda>f. toLowerCase (trim term) = [] \<or> matchesQuery (toLowerCase (trim term)) f)
       (filter f_isCustomStation sts @ filter (\<lambda>f. \<not> f_isCustomStation f) sts)"
  by (simp add: visibleStations_def Let_def sort_key_customRank)

lemma map_filter_append: "List.map_filter f (xs @ ys) = List.map_filter f xs @ List.map_filter f ys"
  by (simp add: List.map_filter_def)

lemma converted_custom: "convertToOCMFormat c = Some f \<Longrightarrow> f_isCustomStation f"
  by (auto simp: convertToOCMFormat_def split: option.splits)

lemma converted_all_custom:
  "filter f_isCustomStation (List.map_filter convertToOCMFormat cs) = List.map_filter convertToOCMFormat cs"
  by (induction cs) (auto simp: converted_custom split: option.splits)

lemma mixedPage_eq:
  "mixedPage = settle 1 (Fulfilled (Some [sampleFeature 7]))
                 (Fulfilled [sampleStation ''ba'' (Some (Fin 41)) (Some (Fin 20))]) (mountedPage True)"
  by (simp add: mixedPage_def mountedPage_def run_simps)

lemma mixedPage_stations:
  "stations mixedPage = [sampleFeature 7,
     the (convertToOCMFormat (sampleStation ''ba'' (Some (Fin 41)) (Some (Fin 20))))]"
  "searchTerm mixedPage = []"
  by (simp_all add: mixedPage_eq settle_def mountedPage_fields
      mountedPage_more newLoad_initial resume_alt applyResult_def Let_def signal_aborted_def
      serviceLog_simps customStationsOf_simps mergeStationsWithOCM_def convertToOCMFormat_def
      sampleStation_def)

text \<open>The claim that markers are created in fetch order fails: after a load that returned
  one third-party feature (id 7) and one first-party record, the stations are held
  third-party first, and the marker of the first-party record is created first.\<close>

theorem markers_not_in_fetch_order:
  "map f_id (stations mixedPage) = [7, 1003135]
   \<and> map mk_feature (markerLayers mixedPage) = [1003135, 7]
   \<and> map mk_feature (markerLayers mixedPage) \<noteq> map f_id (stations mixedPage)"
proof -
  have i: "numericId ''ba'' = 1003135"
    by (simp add: numericId_def idHash_def hashStep_def shiftLeft5_def toInt32_def)
  have a: "map f_id (stations mixedPage) = [7, 1003135]"
    by (simp add: mixedPage_stations convertToOCMFormat_def sampleStation_def sampleFeature_def i)
  have b: "map mk_feature (markerLayers mixedPage) = [1003135, 7]"
    by (simp add: markerLayers_def mixedPage_stations visibleStations_def Let_def toLowerCase_def
        trim_def customRank_def markerOf_def getStationLatLng_def convertToOCMFormat_def
        sampleStation_def sampleFeature_def i)
  from a b show ?thesis by simp
qed

text \<open>
  C7, amended. The merged result is the third-party list followed by the converted
  first-party records, all of which carry the custom flag. The list view shows the
  records matching the search term, flagged ones first and the rest after, each group in
  fetch order. The markers are made from that same list view, in its order: the markers of
  the first-party records that match precede those of the third-party records that match.
\<close>

theorem markers_follow_list_order:
  "mergeStationsWithOCM customStations ocmStations
      = ocmStations @ List.map_filter convertToOCMFormat customStations
   \<and> filter f_isCustomStation (List.map_filter convertToOCMFormat customStations)
      = List.map_filter convertToOCMFormat customStations
   \<and> visibleStations term sts
      = filter (\<lambda>f. toLowerCase (trim term) = [] \<or> matchesQuery (toLowerCase (trim term)) f)
          (filter f_isCustomStation sts)
        @ filter (\<lambda>f. toLowerCase (trim term) = [] \<or> matchesQuery (toLowerCase (trim term)) f)
            (filter (\<lambda>f. \<not> f_isCustomStation f) sts)
   \<and> markerLayers s
      = List.map_filter markerOf
          (filter (\<lambda>f. toLowerCase (trim (searchTerm s)) = []
                        \<or> matchesQuery (toLowerCase (trim (searchTerm s))) f)
             (filter f_isCustomStation (stations s)))
        @ List.map_filter markerOf
            (filter (\<lambda>f. toLowerCase (trim (searchTerm s)) = []
                          \<or> matchesQuery (toLowerCase (trim (searchTerm s))) f)
               (filter (\<lambda>f. \<not> f_isCustomStation f) (stations s)))
   \<and> markerLayers s = List.map_filter markerOf (visibleStations (searchTerm s) (stations s))"
  by (simp add: mergeStationsWithOCM_def converted_all_custom visibleStations_split markerLayers_def
      map_filter_append)

theorem markers_follow_list_order_witness:
  "map f_id (mergeStationsWithOCM [sampleStation ''ba'' (Some (Fin 41)) (Some (Fin 20))] [sampleFeature 7])
      = [7, numericId ''ba'']
   \<and> map f_isCustomStation (visibleStations [] (stations mixedPage)) = [True, False]
   \<and> map mk_customIcon (markerLayers mixedPage) = [True, False]"
proof -
  note t = markers_follow_list_order [of "[sampleStation ''ba'' (Some (Fin 41)) (Some (Fin 20))]"
      "[sampleFeature 7]" "[]" "stations mixedPage" mixedPage]
  have q: "toLowerCase (trim []) = []" by (simp add: toLowerCase_def trim_def)
  from t have "map f_id (mergeStationsWithOCM [sampleStation ''ba'' (Some (Fin 41)) (Some (Fin 20))]
      [sampleFeature 7]) = [7, numericId ''ba'']"
    by (simp add: convertToOCMFormat_def sampleStation_def sampleFeature_def)
  moreover from t have "map f_isCustomStation (visibleStations [] (stations mixedPage)) = [True, False]"
    by (simp add: q mixedPage_stations convertToOCMFormat_def sampleStation_def sampleFeature_def)
  moreover from t have "map mk_customIcon (markerLayers mixedPage) = [True, False]"
    by (simp add: q mixedPage_stations convertToOCMFormat_def sampleStation_def sampleFeature_def
        markerOf_def getStationLatLng_def)
  ultimately show ?thesis by simp
qed

end
